theory Spec2Isabelle
  imports Main "HOL-Library.Word" "HOL-Library.List_Lexorder" "HOL-Library.Product_Lexorder"
begin

section \<open>Values, errors and the runtime the module depends on\<close>

text \<open>
  The module \<^verbatim>\<open>binary_io.py\<close> serialises flat Python values. The values considered here
  are the ones the module is written for: \<^verbatim>\<open>None\<close>, integers, text strings (sequences of
  code points), byte strings, and lists, sets and dicts of those. A Python set or dict is
  kept as the list of its members (entries) in iteration order, so that two collections
  that are equal in Python but were built in different insertion orders are two different
  lists with the same elements.
\<close>

type_synonym byte = "8 word"

datatype scalar = SNone | SInt int | SStr "nat list" | SBytes "byte list"

datatype pyval =
    Scalar scalar
  | PList "scalar list"
  | PSet "scalar list"
  | PDict "(scalar \<times> scalar) list"

text \<open>
  The exceptions the module can end in. The three \<^verbatim>\<open>ValueError\<close>s raised by the module
  itself are told apart by their message: an unsupported tag, a short sequence that is
  too long, and a duplicate key. The others come from the Python library.
\<close>

datatype error =
    UnsupportedType string
  | LengthOverflow
  | DuplicateKey scalar
  | DecodeError
  | EncodeError
  | LookupError
  | StructError
  | TypeError
  | IndexError
  | KeyError
  | AttributeError

text \<open>
  What the module takes from outside: the width of the C \<^verbatim>\<open>long\<close> and the byte order
  (the format strings are given to \<^verbatim>\<open>struct\<close> without a prefix, which selects native size
  and order), and the text codecs, looked up by name.
\<close>

record runtime =
  long64 :: bool
  big_endian :: bool
  encode :: "string \<Rightarrow> nat list \<Rightarrow> error + byte list"
  decode :: "string \<Rightarrow> byte list \<Rightarrow> error + nat list"

text \<open>
  The file object: the bytes written to it so far and the bytes still to be read from
  it. \<^verbatim>\<open>write\<close> appends and returns the number of bytes; \<^verbatim>\<open>read(n)\<close> returns at most
  \<^verbatim>\<open>n\<close> bytes, fewer at the end of the data, without raising.
\<close>

record file_object =
  written :: "byte list"
  unread :: "byte list"

type_synonym 'a io = "file_object \<Rightarrow> (error + 'a) \<times> file_object"

definition ret :: "'a \<Rightarrow> 'a io" where
  "ret x f = (Inr x, f)"

definition raise :: "error \<Rightarrow> 'a io" where
  "raise e f = (Inl e, f)"

definition bnd :: "'a io \<Rightarrow> ('a \<Rightarrow> 'b io) \<Rightarrow> 'b io" where
  "bnd m k f = (case m f of (Inl e, f') \<Rightarrow> (Inl e, f') | (Inr x, f') \<Rightarrow> k x f')"

definition lift :: "error + 'a \<Rightarrow> 'a io" where
  "lift r = (case r of Inl e \<Rightarrow> raise e | Inr x \<Rightarrow> ret x)"

definition bio_in :: "nat \<Rightarrow> (byte list) io" where
  "bio_in n f = (Inr (take n (unread f)), f\<lparr>unread := drop n (unread f)\<rparr>)"

definition bio_out :: "byte list \<Rightarrow> nat io" where
  "bio_out data f = (Inr (length data), f\<lparr>written := written f @ data\<rparr>)"

section \<open>The struct module on single numbers\<close>

fun le_bytes :: "nat \<Rightarrow> nat \<Rightarrow> byte list" where
  "le_bytes 0 x = []"
| "le_bytes (Suc n) x = of_nat (x mod 256) # le_bytes n (x div 256)"

fun le_val :: "byte list \<Rightarrow> nat" where
  "le_val [] = 0"
| "le_val (b # bs) = unat b + 256 * le_val bs"

definition native :: "runtime \<Rightarrow> byte list \<Rightarrow> byte list" where
  "native rt bs = (if big_endian rt then rev bs else bs)"

definition calcsize :: "runtime \<Rightarrow> string \<Rightarrow> nat option" where
  "calcsize rt fmt =
     (if fmt = ''b'' \<or> fmt = ''B'' then Some 1
      else if fmt = ''i'' \<or> fmt = ''I'' then Some 4
      else if fmt = ''l'' \<or> fmt = ''L'' then Some (if long64 rt then 8 else 4)
      else None)"

definition fmt_signed :: "string \<Rightarrow> bool" where
  "fmt_signed fmt = (fmt = ''b'' \<or> fmt = ''i'' \<or> fmt = ''l'')"

definition fmt_lo :: "nat \<Rightarrow> string \<Rightarrow> int" where
  "fmt_lo n fmt = (if fmt_signed fmt then - (2 ^ (8 * n - 1)) else 0)"

definition fmt_hi :: "nat \<Rightarrow> string \<Rightarrow> int" where
  "fmt_hi n fmt = (if fmt_signed fmt then 2 ^ (8 * n - 1) else 2 ^ (8 * n))"

definition struct_pack :: "runtime \<Rightarrow> string \<Rightarrow> pyval \<Rightarrow> error + byte list" where
  "struct_pack rt fmt v =
     (case calcsize rt fmt of
        None \<Rightarrow> Inl StructError
      | Some n \<Rightarrow>
         (case v of
            Scalar (SInt i) \<Rightarrow>
              if fmt_lo n fmt \<le> i \<and> i < fmt_hi n fmt
              then Inr (native rt (le_bytes n (nat (i mod 2 ^ (8 * n)))))
              else Inl StructError
          | _ \<Rightarrow> Inl StructError))"

definition struct_unpack :: "runtime \<Rightarrow> string \<Rightarrow> byte list \<Rightarrow> error + int" where
  "struct_unpack rt fmt bs =
     (case calcsize rt fmt of
        None \<Rightarrow> Inl StructError
      | Some n \<Rightarrow>
          if length bs \<noteq> n then Inl StructError
          else let u = int (le_val (native rt bs))
               in Inr (if fmt_signed fmt \<and> 2 ^ (8 * n - 1) \<le> u then u - 2 ^ (8 * n) else u))"

section \<open>Class constants\<close>

definition NUMERIC_FMT :: "string list" where
  "NUMERIC_FMT = [''b'', ''B'', ''i'', ''I'', ''l'', ''L'']"

definition STRING_TYPES :: "string list" where
  "STRING_TYPES = [''str'', ''sstr'']"

definition BYTES_TYPES :: "string list" where
  "BYTES_TYPES = [''byt'', ''sbyt'']"

definition SCALAR_TYPES :: "string list" where
  "SCALAR_TYPES = NUMERIC_FMT @ STRING_TYPES @ BYTES_TYPES"

definition DEFAULT_ENC :: string where
  "DEFAULT_ENC = ''utf-8''"

type_synonym type_spec = "string \<times> string option"

definition LONG_TYPE :: type_spec where
  "LONG_TYPE = (''I'', None)"

definition SHORT_TYPE :: type_spec where
  "SHORT_TYPE = (''B'', None)"

definition NUMBER_SIZES :: "runtime \<Rightarrow> string \<Rightarrow> nat option" where
  "NUMBER_SIZES rt =
     map_of (List.map_filter
       (\<lambda>fmt. case struct_pack rt fmt (Scalar (SInt 42)) of
                Inr bs \<Rightarrow> Some (fmt, length bs)
              | Inl e \<Rightarrow> None)
       NUMERIC_FMT)"

section \<open>Numbers\<close>

definition read_number :: "runtime \<Rightarrow> type_spec \<Rightarrow> int io" where
  "read_number rt number_type =
     (case number_type of (fmt, enc) \<Rightarrow>
        if fmt \<notin> set NUMERIC_FMT then raise (UnsupportedType fmt)
        else (case NUMBER_SIZES rt fmt of
                None \<Rightarrow> raise KeyError
              | Some n \<Rightarrow> bnd (bio_in n) (\<lambda>bs. lift (struct_unpack rt fmt bs))))"

definition write_number :: "runtime \<Rightarrow> pyval \<Rightarrow> type_spec \<Rightarrow> nat io" where
  "write_number rt number number_type =
     (case number_type of (fmt, enc) \<Rightarrow>
        bnd (lift (struct_pack rt fmt number)) bio_out)"

section \<open>Length prefixes, byte sequences and strings\<close>

text \<open>
  \<^verbatim>\<open>len\<close> and iteration, as Python defines them on the values above: \<^verbatim>\<open>None\<close> and
  integers have neither; a string iterates over its one-character strings, a byte string
  over its integers, a dict over its keys.
\<close>

fun py_len :: "pyval \<Rightarrow> error + nat" where
  "py_len (Scalar SNone) = Inl TypeError"
| "py_len (Scalar (SInt i)) = Inl TypeError"
| "py_len (Scalar (SStr s)) = Inr (length s)"
| "py_len (Scalar (SBytes b)) = Inr (length b)"
| "py_len (PList xs) = Inr (length xs)"
| "py_len (PSet xs) = Inr (length xs)"
| "py_len (PDict kvs) = Inr (length kvs)"

fun py_iter :: "pyval \<Rightarrow> error + scalar list" where
  "py_iter (Scalar SNone) = Inl TypeError"
| "py_iter (Scalar (SInt i)) = Inl TypeError"
| "py_iter (Scalar (SStr s)) = Inr (map (\<lambda>c. SStr [c]) s)"
| "py_iter (Scalar (SBytes b)) = Inr (map (\<lambda>w. SInt (uint w)) b)"
| "py_iter (PList xs) = Inr xs"
| "py_iter (PSet xs) = Inr xs"
| "py_iter (PDict kvs) = Inr (map fst kvs)"

definition PInt :: "nat \<Rightarrow> pyval" where
  "PInt n = Scalar (SInt (int n))"

definition fmt_to_len_type :: "string \<Rightarrow> type_spec" where
  "fmt_to_len_type fmt = (if fmt = ''byt'' \<or> fmt = ''str'' then LONG_TYPE else SHORT_TYPE)"

definition get_len_and_fmt :: "pyval \<Rightarrow> string \<Rightarrow> error + nat \<times> type_spec" where
  "get_len_and_fmt sequence fmt =
     (case py_len sequence of
        Inl e \<Rightarrow> Inl e
      | Inr len \<Rightarrow>
         (case fmt_to_len_type fmt of (typ, enc) \<Rightarrow>
            if typ = ''B'' \<and> len > 255 then Inl LengthOverflow
            else Inr (len, (typ, enc))))"

definition read_bytes :: "runtime \<Rightarrow> type_spec \<Rightarrow> scalar io" where
  "read_bytes rt item_type =
     (case item_type of (fmt, enc) \<Rightarrow>
        bnd (read_number rt (fmt_to_len_type fmt)) (\<lambda>len.
        bnd (bio_in (nat len)) (\<lambda>bs. ret (SBytes bs))))"

text \<open>The file object accepts bytes only; anything else raises \<^verbatim>\<open>TypeError\<close>.\<close>

definition out_value :: "pyval \<Rightarrow> nat io" where
  "out_value v = (case v of Scalar (SBytes bs) \<Rightarrow> bio_out bs | _ \<Rightarrow> raise TypeError)"

definition write_bytes :: "runtime \<Rightarrow> pyval \<Rightarrow> type_spec \<Rightarrow> nat io" where
  "write_bytes rt bytes item_type =
     (case item_type of (fmt, enc) \<Rightarrow>
        bnd (lift (get_len_and_fmt bytes fmt)) (\<lambda>(len, number_type).
        bnd (write_number rt (PInt len) number_type) (\<lambda>n.
        bnd (out_value bytes) (\<lambda>k. ret (n + k)))))"

definition enc_or_default :: "string option \<Rightarrow> string" where
  "enc_or_default enc = (case enc of None \<Rightarrow> DEFAULT_ENC | Some e \<Rightarrow> if e = [] then DEFAULT_ENC else e)"

definition decode_string :: "runtime \<Rightarrow> byte list \<Rightarrow> string option \<Rightarrow> error + scalar" where
  "decode_string rt bs enc =
     (case decode rt (enc_or_default enc) bs of Inl e \<Rightarrow> Inl e | Inr s \<Rightarrow> Inr (SStr s))"

definition encode_string :: "runtime \<Rightarrow> pyval \<Rightarrow> string option \<Rightarrow> error + byte list" where
  "encode_string rt string enc =
     (case string of
        Scalar (SStr s) \<Rightarrow> encode rt (enc_or_default enc) s
      | _ \<Rightarrow> Inl TypeError)"

definition read_string :: "runtime \<Rightarrow> type_spec \<Rightarrow> scalar io" where
  "read_string rt item_type =
     (case item_type of (fmt, enc) \<Rightarrow>
        bnd (read_number rt (fmt_to_len_type fmt)) (\<lambda>len.
        bnd (bio_in (nat len)) (\<lambda>bs. lift (decode_string rt bs enc))))"

definition write_string :: "runtime \<Rightarrow> pyval \<Rightarrow> type_spec \<Rightarrow> nat io" where
  "write_string rt string item_type =
     (case item_type of (fmt, enc) \<Rightarrow>
        bnd (lift (encode_string rt string enc)) (\<lambda>bs.
        bnd (lift (get_len_and_fmt (Scalar (SBytes bs)) fmt)) (\<lambda>(len, number_type).
        bnd (write_number rt (PInt len) number_type) (\<lambda>n.
        bnd (bio_out bs) (\<lambda>k. ret (n + k))))))"

section \<open>Scalars\<close>

definition read_scalar :: "runtime \<Rightarrow> type_spec \<Rightarrow> scalar io" where
  "read_scalar rt item_type =
     (case item_type of (typ, enc) \<Rightarrow>
        if typ \<in> set NUMERIC_FMT then bnd (read_number rt item_type) (\<lambda>i. ret (SInt i))
        else if typ \<in> set STRING_TYPES then read_string rt item_type
        else if typ \<in> set BYTES_TYPES then read_bytes rt item_type
        else raise (UnsupportedType typ))"

definition write_scalar :: "runtime \<Rightarrow> pyval \<Rightarrow> type_spec \<Rightarrow> nat io" where
  "write_scalar rt item item_type =
     (case item_type of (typ, enc) \<Rightarrow>
        if typ \<in> set NUMERIC_FMT then write_number rt item item_type
        else if typ \<in> set STRING_TYPES then write_string rt item item_type
        else if typ \<in> set BYTES_TYPES then write_bytes rt item item_type
        else raise (UnsupportedType typ))"

section \<open>Containers\<close>

text \<open>
  \<^verbatim>\<open>sorted\<close>: Python orders integers by value and strings and byte strings
  lexicographically; it has no order between values of different types and none on
  \<^verbatim>\<open>None\<close>, and raises \<^verbatim>\<open>TypeError\<close> as soon as it has to compare such a pair, which it
  must do whenever there are at least two elements.
\<close>

fun is_int :: "scalar \<Rightarrow> bool" where
  "is_int (SInt i) = True" | "is_int _ = False"

fun is_str :: "scalar \<Rightarrow> bool" where
  "is_str (SStr s) = True" | "is_str _ = False"

fun is_bytes :: "scalar \<Rightarrow> bool" where
  "is_bytes (SBytes b) = True" | "is_bytes _ = False"

definition comparable :: "scalar list \<Rightarrow> bool" where
  "comparable xs =
     (length xs \<le> 1 \<or> list_all is_int xs \<or> list_all is_str xs \<or> list_all is_bytes xs)"

fun order_key :: "scalar \<Rightarrow> int \<times> nat list" where
  "order_key SNone = (0, [])"
| "order_key (SInt i) = (i, [])"
| "order_key (SStr s) = (0, s)"
| "order_key (SBytes b) = (0, map unat b)"

definition py_sorted :: "scalar list \<Rightarrow> error + scalar list" where
  "py_sorted xs = (if comparable xs then Inr (sort_key order_key xs) else Inl TypeError)"

text \<open>
  The items of a dict are pairs with pairwise different keys, so comparing two of them
  compares their keys.
\<close>

definition py_sorted_items :: "(scalar \<times> scalar) list \<Rightarrow> error + (scalar \<times> scalar) list" where
  "py_sorted_items kvs =
     (if comparable (map fst kvs) then Inr (sort_key (\<lambda>kv. order_key (fst kv)) kvs)
      else Inl TypeError)"

text \<open>
  Python's \<^verbatim>\<open><=\<close> on two values of the same kind: by value on integers, lexicographic
  by code point on strings and by byte value on byte strings. Between other pairs there
  is no order.
\<close>

fun py_le :: "scalar \<Rightarrow> scalar \<Rightarrow> bool" where
  "py_le (SInt a) (SInt b) = (a \<le> b)"
| "py_le (SStr a) (SStr b) = (a \<le> b)"
| "py_le (SBytes a) (SBytes b) = (map unat a \<le> map unat b)"
| "py_le _ _ = False"

definition py_items :: "pyval \<Rightarrow> error + (scalar \<times> scalar) list" where
  "py_items m = (case m of PDict kvs \<Rightarrow> Inr kvs | _ \<Rightarrow> Inl AttributeError)"

definition set_add :: "scalar list \<Rightarrow> scalar \<Rightarrow> scalar list" where
  "set_add s x = (if x \<in> set s then s else s @ [x])"

fun read_vector_loop :: "runtime \<Rightarrow> type_spec \<Rightarrow> nat \<Rightarrow> scalar list \<Rightarrow> (scalar list) io" where
  "read_vector_loop rt element_type 0 vector = ret vector"
| "read_vector_loop rt element_type (Suc l) vector =
     bnd (read_scalar rt element_type) (\<lambda>x.
       read_vector_loop rt element_type l (vector @ [x]))"

definition read_vector :: "runtime \<Rightarrow> type_spec \<Rightarrow> pyval io" where
  "read_vector rt element_type =
     bnd (read_number rt LONG_TYPE) (\<lambda>l.
     bnd (read_vector_loop rt element_type (nat l) []) (\<lambda>vector. ret (PList vector)))"

fun write_elements :: "runtime \<Rightarrow> type_spec \<Rightarrow> scalar list \<Rightarrow> nat \<Rightarrow> nat io" where
  "write_elements rt element_type [] n = ret n"
| "write_elements rt element_type (element # rest) n =
     bnd (write_scalar rt (Scalar element) element_type) (\<lambda>k.
       write_elements rt element_type rest (n + k))"

definition write_vector :: "runtime \<Rightarrow> pyval \<Rightarrow> type_spec \<Rightarrow> nat io" where
  "write_vector rt vector0 element_type =
     (let vector = (if vector0 = Scalar SNone then PList [] else vector0) in
      bnd (lift (py_len vector)) (\<lambda>len.
      bnd (write_number rt (PInt len) LONG_TYPE) (\<lambda>n.
      bnd (lift (py_iter vector)) (\<lambda>elements.
        write_elements rt element_type elements n))))"

fun read_set_loop :: "runtime \<Rightarrow> type_spec \<Rightarrow> nat \<Rightarrow> scalar list \<Rightarrow> (scalar list) io" where
  "read_set_loop rt member_type 0 s = ret s"
| "read_set_loop rt member_type (Suc l) s =
     bnd (read_scalar rt member_type) (\<lambda>x.
       read_set_loop rt member_type l (set_add s x))"

definition read_set :: "runtime \<Rightarrow> type_spec \<Rightarrow> pyval io" where
  "read_set rt member_type =
     bnd (read_number rt LONG_TYPE) (\<lambda>l.
     bnd (read_set_loop rt member_type (nat l) []) (\<lambda>s. ret (PSet s)))"

definition write_set :: "runtime \<Rightarrow> pyval \<Rightarrow> type_spec \<Rightarrow> nat io" where
  "write_set rt s member_type =
     bnd (lift (py_len s)) (\<lambda>len.
     bnd (write_number rt (PInt len) LONG_TYPE) (\<lambda>n.
     bnd (lift (py_iter s)) (\<lambda>members.
     bnd (lift (py_sorted members)) (\<lambda>ordered.
       write_elements rt member_type ordered n))))"

fun read_map_loop ::
  "runtime \<Rightarrow> type_spec \<Rightarrow> type_spec \<Rightarrow> nat \<Rightarrow> (scalar \<times> scalar) list \<Rightarrow> ((scalar \<times> scalar) list) io"
where
  "read_map_loop rt key_type value_type 0 m = ret m"
| "read_map_loop rt key_type value_type (Suc l) m =
     bnd (read_scalar rt key_type) (\<lambda>key.
     bnd (read_scalar rt value_type) (\<lambda>val.
       if key \<in> fst ` set m then raise (DuplicateKey key)
       else read_map_loop rt key_type value_type l (m @ [(key, val)])))"

definition read_map :: "runtime \<Rightarrow> type_spec \<Rightarrow> type_spec \<Rightarrow> pyval io" where
  "read_map rt key_type value_type =
     bnd (read_number rt LONG_TYPE) (\<lambda>l.
     bnd (read_map_loop rt key_type value_type (nat l) []) (\<lambda>m. ret (PDict m)))"

fun write_entries ::
  "runtime \<Rightarrow> type_spec \<Rightarrow> type_spec \<Rightarrow> (scalar \<times> scalar) list \<Rightarrow> nat \<Rightarrow> nat io"
where
  "write_entries rt key_type value_type [] n = ret n"
| "write_entries rt key_type value_type ((key, val) # rest) n =
     bnd (write_scalar rt (Scalar key) key_type) (\<lambda>k1.
     bnd (write_scalar rt (Scalar val) value_type) (\<lambda>k2.
       write_entries rt key_type value_type rest (n + k1 + k2)))"

definition write_map :: "runtime \<Rightarrow> pyval \<Rightarrow> type_spec \<Rightarrow> type_spec \<Rightarrow> nat io" where
  "write_map rt m key_type value_type =
     bnd (lift (py_len m)) (\<lambda>len.
     bnd (write_number rt (PInt len) LONG_TYPE) (\<lambda>n.
     bnd (lift (py_items m)) (\<lambda>items.
     bnd (lift (py_sorted_items items)) (\<lambda>ordered.
       write_entries rt key_type value_type ordered n))))"

section \<open>Type descriptors and the two entry points\<close>

fun split_on :: "char \<Rightarrow> string \<Rightarrow> string list" where
  "split_on c [] = [[]]"
| "split_on c (x # xs) =
     (if x = c then [] # split_on c xs
      else (case split_on c xs of
              [] \<Rightarrow> [[x]]
            | w # ws \<Rightarrow> (x # w) # ws))"

definition parse_component :: "string \<Rightarrow> type_spec" where
  "parse_component type_component =
     (if CHR ''/'' \<in> set type_component
      then (takeWhile (\<lambda>c. c \<noteq> CHR ''/'') type_component,
            Some (tl (dropWhile (\<lambda>c. c \<noteq> CHR ''/'') type_component)))
      else (type_component, None))"

definition parse_type_descr :: "string \<Rightarrow> type_spec list" where
  "parse_type_descr type_descr = map parse_component (split_on CHR '':'' type_descr)"

definition component :: "type_spec list \<Rightarrow> nat \<Rightarrow> error + type_spec" where
  "component type_components i =
     (if i < length type_components then Inr (type_components ! i) else Inl IndexError)"

definition read :: "runtime \<Rightarrow> string \<Rightarrow> pyval io" where
  "read rt type_descr =
     (let type_components = parse_type_descr type_descr in
      bnd (lift (component type_components 0)) (\<lambda>(typ, enc).
        if typ \<in> set SCALAR_TYPES then
          bnd (read_scalar rt (typ, enc)) (\<lambda>x. ret (Scalar x))
        else if typ = ''vec'' then
          bnd (lift (component type_components 1)) (\<lambda>t1. read_vector rt t1)
        else if typ = ''set'' then
          bnd (lift (component type_components 1)) (\<lambda>t1. read_set rt t1)
        else if typ = ''map'' then
          bnd (lift (component type_components 1)) (\<lambda>t1.
          bnd (lift (component type_components 2)) (\<lambda>t2. read_map rt t1 t2))
        else raise (UnsupportedType typ)))"

text \<open>\<^verbatim>\<open>write\<close> is named \<open>write_bio\<close> here, \<open>write\<close> being reserved.\<close>

definition write_bio :: "runtime \<Rightarrow> pyval \<Rightarrow> string \<Rightarrow> nat io" where
  "write_bio rt item type_descr =
     (let type_components = parse_type_descr type_descr in
      bnd (lift (component type_components 0)) (\<lambda>(typ, enc).
        if typ \<in> set SCALAR_TYPES then write_scalar rt item (typ, enc)
        else if typ = ''vec'' then
          bnd (lift (component type_components 1)) (\<lambda>t1. write_vector rt item t1)
        else if typ = ''set'' then
          bnd (lift (component type_components 1)) (\<lambda>t1. write_set rt item t1)
        else if typ = ''map'' then
          bnd (lift (component type_components 1)) (\<lambda>t1.
          bnd (lift (component type_components 2)) (\<lambda>t2. write_map rt item t1 t2))
        else raise (UnsupportedType typ)))"

section \<open>What a call leaves in the file, and which values a tag can carry\<close>

definition emitted :: "nat io \<Rightarrow> byte list" where
  "emitted m = written (snd (m \<lparr>written = [], unread = []\<rparr>))"

definition scalar_bytes :: "runtime \<Rightarrow> type_spec \<Rightarrow> scalar \<Rightarrow> byte list" where
  "scalar_bytes rt item_type v = emitted (write_scalar rt (Scalar v) item_type)"

definition count_bytes :: "runtime \<Rightarrow> nat \<Rightarrow> byte list" where
  "count_bytes rt n = emitted (write_number rt (PInt n) LONG_TYPE)"

definition entry_bytes :: "runtime \<Rightarrow> type_spec \<Rightarrow> type_spec \<Rightarrow> scalar \<times> scalar \<Rightarrow> byte list" where
  "entry_bytes rt key_type value_type kv =
     scalar_bytes rt key_type (fst kv) @ scalar_bytes rt value_type (snd kv)"

definition elements_bytes :: "runtime \<Rightarrow> type_spec \<Rightarrow> scalar list \<Rightarrow> byte list" where
  "elements_bytes rt item_type xs = concat (map (scalar_bytes rt item_type) xs)"

definition entries_bytes ::
  "runtime \<Rightarrow> type_spec \<Rightarrow> type_spec \<Rightarrow> (scalar \<times> scalar) list \<Rightarrow> byte list" where
  "entries_bytes rt key_type value_type kvs = concat (map (entry_bytes rt key_type value_type) kvs)"

text \<open>
  Equality of Python values: lists are equal when they have the same elements in the same
  order, sets when they have the same members, dicts when they map the same keys to the
  same values.
\<close>

fun py_eq :: "pyval \<Rightarrow> pyval \<Rightarrow> bool" where
  "py_eq (Scalar a) (Scalar b) = (a = b)"
| "py_eq (PList xs) (PList ys) = (xs = ys)"
| "py_eq (PSet xs) (PSet ys) = (set xs = set ys)"
| "py_eq (PDict kvs) (PDict kvs') = (map_of kvs = map_of kvs')"
| "py_eq _ _ = False"

text \<open>
  A value is representable under a tag when it has the tag's Python type and fits: an
  integer within the range of the format; a string that the codec encodes, that the codec
  decodes back from its encoding, and whose encoding is short enough for the length
  prefix; a byte string short enough for the length prefix.
\<close>

definition prefix_limit :: "string \<Rightarrow> nat" where
  "prefix_limit typ = (if typ = ''byt'' \<or> typ = ''str'' then 2 ^ 32 else 256)"

definition representable :: "runtime \<Rightarrow> type_spec \<Rightarrow> scalar \<Rightarrow> bool" where
  "representable rt item_type v =
     (case item_type of (typ, enc) \<Rightarrow>
        if typ \<in> set NUMERIC_FMT then
          (case (v, calcsize rt typ) of
             (SInt i, Some n) \<Rightarrow> fmt_lo n typ \<le> i \<and> i < fmt_hi n typ
           | _ \<Rightarrow> False)
        else if typ \<in> set STRING_TYPES then
          (case v of
             SStr s \<Rightarrow>
               (case encode rt (enc_or_default enc) s of
                  Inr bs \<Rightarrow> decode rt (enc_or_default enc) bs = Inr s \<and> length bs < prefix_limit typ
                | Inl e \<Rightarrow> False)
           | _ \<Rightarrow> False)
        else if typ \<in> set BYTES_TYPES then
          (case v of SBytes b \<Rightarrow> length b < prefix_limit typ | _ \<Rightarrow> False)
        else False)"

definition representable_entry :: "runtime \<Rightarrow> type_spec \<Rightarrow> type_spec \<Rightarrow> scalar \<times> scalar \<Rightarrow> bool" where
  "representable_entry rt key_type value_type kv =
     (representable rt key_type (fst kv) \<and> representable rt value_type (snd kv))"

text \<open>
  The descriptor text of a type specification, \<^verbatim>\<open>tag\<close> or \<^verbatim>\<open>tag/enc\<close>, and the
  specifications that the descriptor syntax can express: no colon or slash in the tag, no
  colon in the encoding.
\<close>

definition descriptor :: "type_spec \<Rightarrow> string" where
  "descriptor item_type =
     (case snd item_type of None \<Rightarrow> fst item_type | Some e \<Rightarrow> fst item_type @ CHR ''/'' # e)"

definition expressible :: "type_spec \<Rightarrow> bool" where
  "expressible item_type =
     (CHR '':'' \<notin> set (fst item_type) \<and> CHR ''/'' \<notin> set (fst item_type)
      \<and> (case snd item_type of None \<Rightarrow> True | Some e \<Rightarrow> CHR '':'' \<notin> set e))"

section \<open>A runtime for examples\<close>

text \<open>
  Three of Python's codecs, under one name each, on a 64-bit little-endian machine with
  an 8-byte \<^verbatim>\<open>long\<close>: the platform of the module's own self-test, which writes
  \<^verbatim>\<open>9223372036854775807\<close> with tag \<^verbatim>\<open>L\<close>.
\<close>

fun utf8_char :: "nat \<Rightarrow> (nat list) option" where
  "utf8_char c =
     (if c < 128 then Some [c]
      else if c < 2048 then Some [192 + c div 64, 128 + c mod 64]
      else if 55296 \<le> c \<and> c < 57344 then None
      else if c < 65536 then Some [224 + c div 4096, 128 + (c div 64) mod 64, 128 + c mod 64]
      else if c < 1114112 then
        Some [240 + c div 262144, 128 + (c div 4096) mod 64, 128 + (c div 64) mod 64, 128 + c mod 64]
      else None)"

fun utf8_enc :: "nat list \<Rightarrow> (nat list) option" where
  "utf8_enc [] = Some []"
| "utf8_enc (c # cs) =
     (case (utf8_char c, utf8_enc cs) of
        (Some bs, Some rest) \<Rightarrow> Some (bs @ rest)
      | _ \<Rightarrow> None)"

definition cont :: "nat \<Rightarrow> bool" where
  "cont b = (128 \<le> b \<and> b < 192)"

fun utf8_dec :: "nat list \<Rightarrow> (nat list) option" where
  "utf8_dec [] = Some []"
| "utf8_dec [a] = (if a < 128 then Some [a] else None)"
| "utf8_dec [a, b] =
     (if a < 128 then map_option (Cons a) (utf8_dec [b])
      else if 194 \<le> a \<and> a < 224 \<and> cont b then Some [(a - 192) * 64 + (b - 128)]
      else None)"
| "utf8_dec [a, b, c] =
     (if a < 128 then map_option (Cons a) (utf8_dec [b, c])
      else if 194 \<le> a \<and> a < 224 \<and> cont b
        then map_option (Cons ((a - 192) * 64 + (b - 128))) (utf8_dec [c])
      else let p = (a - 224) * 4096 + (b - 128) * 64 + (c - 128) in
        if 224 \<le> a \<and> a < 240 \<and> cont b \<and> cont c \<and> 2048 \<le> p \<and> \<not> (55296 \<le> p \<and> p < 57344)
        then Some [p]
        else None)"
| "utf8_dec (a # b # c # d # r) =
     (if a < 128 then map_option (Cons a) (utf8_dec (b # c # d # r))
      else if 194 \<le> a \<and> a < 224 \<and> cont b
        then map_option (Cons ((a - 192) * 64 + (b - 128))) (utf8_dec (c # d # r))
      else let p = (a - 224) * 4096 + (b - 128) * 64 + (c - 128);
               q = (a - 240) * 262144 + (b - 128) * 4096 + (c - 128) * 64 + (d - 128) in
        if 224 \<le> a \<and> a < 240 \<and> cont b \<and> cont c \<and> 2048 \<le> p \<and> \<not> (55296 \<le> p \<and> p < 57344)
        then map_option (Cons p) (utf8_dec (d # r))
        else if 240 \<le> a \<and> a < 245 \<and> cont b \<and> cont c \<and> cont d \<and> 65536 \<le> q \<and> q < 1114112
        then map_option (Cons q) (utf8_dec r)
        else None)"

definition to_bytes :: "nat list \<Rightarrow> byte list" where
  "to_bytes ns = map of_nat ns"

definition example_encode :: "string \<Rightarrow> nat list \<Rightarrow> error + byte list" where
  "example_encode name s =
     (if name = ''utf-8'' then
        (case utf8_enc s of Some ns \<Rightarrow> Inr (to_bytes ns) | None \<Rightarrow> Inl EncodeError)
      else if name = ''latin-1'' then
        (if list_all (\<lambda>c. c < 256) s then Inr (to_bytes s) else Inl EncodeError)
      else if name = ''ascii'' then
        (if list_all (\<lambda>c. c < 128) s then Inr (to_bytes s) else Inl EncodeError)
      else Inl LookupError)"

definition example_decode :: "string \<Rightarrow> byte list \<Rightarrow> error + nat list" where
  "example_decode name bs =
     (if name = ''utf-8'' then
        (case utf8_dec (map unat bs) of Some s \<Rightarrow> Inr s | None \<Rightarrow> Inl DecodeError)
      else if name = ''latin-1'' then Inr (map unat bs)
      else if name = ''ascii'' then
        (if list_all (\<lambda>b. b < 128) bs then Inr (map unat bs) else Inl DecodeError)
      else Inl LookupError)"

definition lp64 :: runtime where
  "lp64 = \<lparr>long64 = True, big_endian = False, encode = example_encode, decode = example_decode\<rparr>"

definition fresh :: file_object where
  "fresh = \<lparr>written = [], unread = []\<rparr>"

definition opened :: "byte list \<Rightarrow> file_object" where
  "opened bs = \<lparr>written = [], unread = bs\<rparr>"

section \<open>The monad and the struct module: basic facts\<close>

lemma bnd_ret [simp]: "bnd (ret x) k f = k x f"
  by (simp add: bnd_def ret_def)

lemma bnd_raise [simp]: "bnd (raise e) k f = (Inl e, f)"
  by (simp add: bnd_def raise_def)

lemma lift_Inr [simp]: "lift (Inr x) = ret x"
  by (simp add: lift_def)

lemma lift_Inl [simp]: "lift (Inl e) = raise e"
  by (simp add: lift_def)

lemma bnd_bio_out [simp]:
  "bnd (bio_out bs) k f = k (length bs) (f\<lparr>written := written f @ bs\<rparr>)"
  by (simp add: bnd_def bio_out_def)

lemma bnd_bio_in [simp]:
  "bnd (bio_in n) k f = k (take n (unread f)) (f\<lparr>unread := drop n (unread f)\<rparr>)"
  by (simp add: bnd_def bio_in_def)

lemma bnd_Inr: "m f = (Inr x, f') \<Longrightarrow> bnd m k f = k x f'"
  by (simp add: bnd_def)

lemma bnd_Inl: "m f = (Inl e, f') \<Longrightarrow> bnd m k f = (Inl e, f')"
  by (simp add: bnd_def)

lemma length_le_bytes [simp]: "length (le_bytes n x) = n"
  by (induction n arbitrary: x) simp_all

lemma le_val_le_bytes: "x < 256 ^ n \<Longrightarrow> le_val (le_bytes n x) = x"
proof (induction n arbitrary: x)
  case 0
  then show ?case by simp
next
  case (Suc n)
  have "x div 256 < 256 ^ n" using Suc.prems by (simp add: less_mult_imp_div_less mult.commute)
  then have "le_val (le_bytes n (x div 256)) = x div 256" by (rule Suc.IH)
  moreover have "unat (of_nat (x mod 256) :: byte) = x mod 256"
    by (simp add: unat_of_nat)
  ultimately show ?case by simp
qed

lemma native_native [simp]: "native rt (native rt bs) = bs"
  by (simp add: native_def)

lemma length_native [simp]: "length (native rt bs) = length bs"
  by (simp add: native_def)

lemma calcsize_cases:
  "calcsize rt fmt = Some n \<Longrightarrow> n = 1 \<or> n = 4 \<or> n = 8"
  by (auto simp: calcsize_def split: if_splits)

lemma unpack_pack:
  assumes "struct_pack rt fmt (Scalar (SInt i)) = Inr bs"
  shows "struct_unpack rt fmt bs = Inr i"
proof -
  obtain n where n: "calcsize rt fmt = Some n"
    using assms by (auto simp: struct_pack_def split: option.splits)
  have rng: "fmt_lo n fmt \<le> i" "i < fmt_hi n fmt"
    and bs: "bs = native rt (le_bytes n (nat (i mod 2 ^ (8 * n))))"
    using assms n by (auto simp: struct_pack_def split: if_splits)
  have pos: "0 < n" using calcsize_cases[OF n] by auto
  have p: "(2::int) ^ (8 * n) = 2 * 2 ^ (8 * n - 1)"
    using pos by (metis Suc_pred' mult_pos_pos power_Suc zero_less_numeral)
  have "nat (i mod 2 ^ (8 * n)) < 256 ^ n"
  proof -
    have "i mod 2 ^ (8 * n) < 2 ^ (8 * n)" by simp
    moreover have "(256::nat) ^ n = 2 ^ (8 * n)" by (simp add: power_mult)
    ultimately show ?thesis by (simp add: nat_less_iff)
  qed
  then have v: "int (le_val (native rt bs)) = i mod 2 ^ (8 * n)"
    by (simp add: bs le_val_le_bytes)
  show ?thesis
  proof (cases "fmt_signed fmt")
    case True
    then have r: "- (2 ^ (8 * n - 1)) \<le> i" "i < 2 ^ (8 * n - 1)"
      using rng by (simp_all add: fmt_lo_def fmt_hi_def)
    show ?thesis
    proof (cases "0 \<le> i")
      case True
      then have "i mod 2 ^ (8 * n) = i" using r p by (simp add: mod_pos_pos_trivial)
      then show ?thesis using n v r \<open>fmt_signed fmt\<close>
        by (simp add: struct_unpack_def bs Let_def)
    next
      case False
      then have "i mod 2 ^ (8 * n) = i + 2 ^ (8 * n)"
        using r p by (smt (verit) mod_add_self2 mod_pos_pos_trivial)
      then show ?thesis using n v r p False \<open>fmt_signed fmt\<close>
        by (simp add: struct_unpack_def bs Let_def)
    qed
  next
    case False
    then have r: "0 \<le> i" "i < 2 ^ (8 * n)"
      using rng by (simp_all add: fmt_lo_def fmt_hi_def)
    then have "i mod 2 ^ (8 * n) = i" by (simp add: mod_pos_pos_trivial)
    then show ?thesis using n v False
      by (simp add: struct_unpack_def bs Let_def)
  qed
qed

lemma length_pack:
  "struct_pack rt fmt v = Inr bs \<Longrightarrow> calcsize rt fmt = Some (length bs)"
  by (auto simp: struct_pack_def split: option.splits pyval.splits scalar.splits if_splits)

lemma pack_42: "fmt \<in> set NUMERIC_FMT \<Longrightarrow> \<exists>bs. struct_pack rt fmt (Scalar (SInt 42)) = Inr bs"
  unfolding NUMERIC_FMT_def struct_pack_def calcsize_def fmt_lo_def fmt_hi_def fmt_signed_def
  by (elim disjE | simp)+

lemma map_of_sizes:
  "map_of (List.map_filter (\<lambda>fmt. case g fmt of Inr bs \<Rightarrow> Some (fmt, h bs) | Inl e \<Rightarrow> None) xs) k
   = (if k \<in> set xs then (case g k of Inr bs \<Rightarrow> Some (h bs) | Inl e \<Rightarrow> None) else None)"
  by (induction xs) (auto simp: List.map_filter_simps split: sum.splits)

lemma NUMBER_SIZES_calcsize:
  assumes "fmt \<in> set NUMERIC_FMT"
  shows "NUMBER_SIZES rt fmt = calcsize rt fmt"
proof -
  obtain bs where bs: "struct_pack rt fmt (Scalar (SInt 42)) = Inr bs"
    using pack_42[OF assms] by blast
  show ?thesis
    unfolding NUMBER_SIZES_def map_of_sizes using assms bs length_pack[OF bs] by simp
qed

section \<open>Numbers and length-prefixed payloads\<close>

lemma write_number_ok:
  "struct_pack rt fmt v = Inr bs \<Longrightarrow>
   write_number rt v (fmt, e) f = (Inr (length bs), f\<lparr>written := written f @ bs\<rparr>)"
  by (simp add: write_number_def bio_out_def bnd_def ret_def)

lemma write_number_fail:
  "struct_pack rt fmt v = Inl err \<Longrightarrow> write_number rt v (fmt, e) f = (Inl err, f)"
  by (simp add: write_number_def)

lemma read_number_ok:
  assumes "fmt \<in> set NUMERIC_FMT" and "struct_pack rt fmt (Scalar (SInt i)) = Inr bs"
    and "unread g = bs @ rest"
  shows "read_number rt (fmt, e) g = (Inr i, g\<lparr>unread := rest\<rparr>)"
  using assms NUMBER_SIZES_calcsize[OF assms(1), of rt] length_pack[OF assms(2)]
    unpack_pack[OF assms(2)]
  by (simp add: read_number_def ret_def)

lemma pack_prefix:
  assumes "n < prefix_limit typ"
  shows "\<exists>bs. struct_pack rt (fst (fmt_to_len_type typ)) (PInt n) = Inr bs"
  using assms
  by (simp add: prefix_limit_def fmt_to_len_type_def LONG_TYPE_def SHORT_TYPE_def PInt_def
      struct_pack_def calcsize_def fmt_lo_def fmt_hi_def fmt_signed_def split: if_splits)

lemma len_type_numeric: "fst (fmt_to_len_type typ) \<in> set NUMERIC_FMT"
  by (simp add: fmt_to_len_type_def LONG_TYPE_def SHORT_TYPE_def NUMERIC_FMT_def)

lemma len_type_enc: "fmt_to_len_type typ = (fst (fmt_to_len_type typ), None)"
  by (simp add: fmt_to_len_type_def LONG_TYPE_def SHORT_TYPE_def)

lemma get_len_ok:
  assumes "py_len v = Inr n" and "n < prefix_limit typ"
  shows "get_len_and_fmt v typ = Inr (n, fmt_to_len_type typ)"
  using assms
  by (auto simp: get_len_and_fmt_def prefix_limit_def fmt_to_len_type_def LONG_TYPE_def
      SHORT_TYPE_def split: if_splits)

text \<open>A length-prefixed payload: what \<open>write_bytes\<close> and \<open>write_string\<close> leave, and how it reads.\<close>

lemma framed_write:
  assumes "struct_pack rt (fst (fmt_to_len_type typ)) (PInt (length bs)) = Inr pre"
    and "length bs < prefix_limit typ"
  shows "bnd (lift (get_len_and_fmt (Scalar (SBytes bs)) typ)) (\<lambda>(len, number_type).
         bnd (write_number rt (PInt len) number_type) (\<lambda>n.
         bnd (bio_out bs) (\<lambda>k. ret (n + k)))) f
       = (Inr (length (pre @ bs)), f\<lparr>written := written f @ pre @ bs\<rparr>)"
proof -
  have g: "get_len_and_fmt (Scalar (SBytes bs)) typ = Inr (length bs, fmt_to_len_type typ)"
    using assms(2) by (simp add: get_len_ok)
  have w: "write_number rt (PInt (length bs)) (fmt_to_len_type typ) f
        = (Inr (length pre), f\<lparr>written := written f @ pre\<rparr>)"
    using write_number_ok[OF assms(1), of None f] len_type_enc[of "typ"] by simp
  show ?thesis
    by (simp add: g bnd_def w ret_def bio_out_def)
qed

lemma framed_read:
  assumes "struct_pack rt (fst (fmt_to_len_type typ)) (PInt (length bs)) = Inr pre"
    and "unread g = (pre @ bs) @ rest"
  shows "bnd (read_number rt (fmt_to_len_type typ)) (\<lambda>len.
         bnd (bio_in (nat len)) k) g = k bs (g\<lparr>unread := rest\<rparr>)"
proof -
  have r: "read_number rt (fmt_to_len_type typ) g = (Inr (int (length bs)), g\<lparr>unread := bs @ rest\<rparr>)"
    using read_number_ok[OF len_type_numeric, of rt "typ" "int (length bs)" pre g "bs @ rest" None]
      assms len_type_enc[of "typ"] by (simp add: PInt_def)
  show ?thesis
    by (simp add: bnd_def r bio_in_def)
qed

section \<open>Scalars written and read back\<close>

lemma numeric_not_others:
  "typ \<in> set NUMERIC_FMT \<Longrightarrow> typ \<notin> set STRING_TYPES \<and> typ \<notin> set BYTES_TYPES"
  "typ \<in> set STRING_TYPES \<Longrightarrow> typ \<notin> set NUMERIC_FMT \<and> typ \<notin> set BYTES_TYPES"
  "typ \<in> set BYTES_TYPES \<Longrightarrow> typ \<notin> set NUMERIC_FMT \<and> typ \<notin> set STRING_TYPES"
  by (auto simp: NUMERIC_FMT_def STRING_TYPES_def BYTES_TYPES_def)

lemma scalar_numeric:
  assumes t: "typ \<in> set NUMERIC_FMT" and r: "representable rt (typ, enc) v"
  shows "\<exists>bs. (\<forall>f. write_scalar rt (Scalar v) (typ, enc) f
                  = (Inr (length bs), f\<lparr>written := written f @ bs\<rparr>))
            \<and> (\<forall>g rest. unread g = bs @ rest
                  \<longrightarrow> read_scalar rt (typ, enc) g = (Inr v, g\<lparr>unread := rest\<rparr>))"
proof -
  obtain i n where v: "v = SInt i" and n: "calcsize rt typ = Some n"
    and rng: "fmt_lo n typ \<le> i" "i < fmt_hi n typ"
    using r t by (auto simp: representable_def split: scalar.splits option.splits)
  define bs where "bs = native rt (le_bytes n (nat (i mod 2 ^ (8 * n))))"
  have p: "struct_pack rt typ (Scalar (SInt i)) = Inr bs"
    using n rng by (simp add: struct_pack_def bs_def)
  have w: "write_scalar rt (Scalar v) (typ, enc) f
            = (Inr (length bs), f\<lparr>written := written f @ bs\<rparr>)" for f
    using t write_number_ok[OF p, of enc f] by (simp add: write_scalar_def v)
  have rd: "read_scalar rt (typ, enc) g = (Inr v, g\<lparr>unread := rest\<rparr>)"
    if "unread g = bs @ rest" for g rest
    using t read_number_ok[OF t p that, of enc]
    by (simp add: read_scalar_def v bnd_def ret_def)
  show ?thesis using w rd by blast
qed

lemma scalar_string:
  assumes t: "typ \<in> set STRING_TYPES" and r: "representable rt (typ, enc) v"
  shows "\<exists>bs. (\<forall>f. write_scalar rt (Scalar v) (typ, enc) f
                  = (Inr (length bs), f\<lparr>written := written f @ bs\<rparr>))
            \<and> (\<forall>g rest. unread g = bs @ rest
                  \<longrightarrow> read_scalar rt (typ, enc) g = (Inr v, g\<lparr>unread := rest\<rparr>))"
proof -
  note nt = numeric_not_others(2)[OF t]
  obtain s bs where v: "v = SStr s" and e: "encode rt (enc_or_default enc) s = Inr bs"
    and d: "decode rt (enc_or_default enc) bs = Inr s" and l: "length bs < prefix_limit typ"
    using r t nt by (auto simp: representable_def split: scalar.splits sum.splits)
  obtain pre where p: "struct_pack rt (fst (fmt_to_len_type typ)) (PInt (length bs)) = Inr pre"
    using pack_prefix[OF l] by blast
  have w: "write_scalar rt (Scalar v) (typ, enc) f
            = (Inr (length (pre @ bs)), f\<lparr>written := written f @ pre @ bs\<rparr>)" for f
    using t nt framed_write[OF p l, of f]
    by (simp add: write_scalar_def write_string_def v encode_string_def e)
  have rd: "read_scalar rt (typ, enc) g = (Inr v, g\<lparr>unread := rest\<rparr>)"
    if "unread g = (pre @ bs) @ rest" for g rest
    using t nt framed_read[OF p that, of "\<lambda>bs. lift (decode_string rt bs enc)"]
    by (simp add: read_scalar_def read_string_def v decode_string_def d ret_def)
  show ?thesis using w rd by blast
qed

lemma scalar_bytes_case:
  assumes t: "typ \<in> set BYTES_TYPES" and r: "representable rt (typ, enc) v"
  shows "\<exists>bs. (\<forall>f. write_scalar rt (Scalar v) (typ, enc) f
                  = (Inr (length bs), f\<lparr>written := written f @ bs\<rparr>))
            \<and> (\<forall>g rest. unread g = bs @ rest
                  \<longrightarrow> read_scalar rt (typ, enc) g = (Inr v, g\<lparr>unread := rest\<rparr>))"
proof -
  note nt = numeric_not_others(3)[OF t]
  obtain bs where v: "v = SBytes bs" and l: "length bs < prefix_limit typ"
    using r t nt by (auto simp: representable_def split: scalar.splits)
  obtain pre where p: "struct_pack rt (fst (fmt_to_len_type typ)) (PInt (length bs)) = Inr pre"
    using pack_prefix[OF l] by blast
  have w: "write_scalar rt (Scalar v) (typ, enc) f
            = (Inr (length (pre @ bs)), f\<lparr>written := written f @ pre @ bs\<rparr>)" for f
    using t nt framed_write[OF p l, of f]
    by (simp add: write_scalar_def write_bytes_def v out_value_def)
  have rd: "read_scalar rt (typ, enc) g = (Inr v, g\<lparr>unread := rest\<rparr>)"
    if "unread g = (pre @ bs) @ rest" for g rest
    using t nt framed_read[OF p that, of "\<lambda>bs. ret (SBytes bs)"]
    by (simp add: read_scalar_def read_bytes_def v ret_def)
  show ?thesis using w rd by blast
qed

lemma representable_tag:
  "representable rt (typ, enc) v \<Longrightarrow>
   typ \<in> set NUMERIC_FMT \<or> typ \<in> set STRING_TYPES \<or> typ \<in> set BYTES_TYPES"
  by (auto simp: representable_def split: if_splits)

lemma scalar_codec:
  assumes "representable rt item_type v"
  shows "\<exists>bs. (\<forall>f. write_scalar rt (Scalar v) item_type f
                  = (Inr (length bs), f\<lparr>written := written f @ bs\<rparr>))
            \<and> (\<forall>g rest. unread g = bs @ rest
                  \<longrightarrow> read_scalar rt item_type g = (Inr v, g\<lparr>unread := rest\<rparr>))"
proof -
  obtain t e where ty: "item_type = (t, e)" by (cases item_type)
  show ?thesis
    using representable_tag[of rt t e v] assms scalar_numeric[of t rt e v]
      scalar_string[of t rt e v] scalar_bytes_case[of t rt e v]
    unfolding ty by blast
qed

lemma write_scalar_ok:
  assumes "representable rt item_type v"
  shows "write_scalar rt (Scalar v) item_type f
         = (Inr (length (scalar_bytes rt item_type v)),
            f\<lparr>written := written f @ scalar_bytes rt item_type v\<rparr>)"
proof -
  obtain bs where w: "\<And>f. write_scalar rt (Scalar v) item_type f
                  = (Inr (length bs), f\<lparr>written := written f @ bs\<rparr>)"
    using scalar_codec[OF assms] by blast
  have "scalar_bytes rt item_type v = bs"
    by (simp add: scalar_bytes_def emitted_def w)
  then show ?thesis using w by simp
qed

lemma read_scalar_ok:
  assumes "representable rt item_type v" and "unread g = scalar_bytes rt item_type v @ rest"
  shows "read_scalar rt item_type g = (Inr v, g\<lparr>unread := rest\<rparr>)"
proof -
  obtain bs where w: "\<And>f. write_scalar rt (Scalar v) item_type f
                  = (Inr (length bs), f\<lparr>written := written f @ bs\<rparr>)"
    and r: "\<And>g rest. unread g = bs @ rest
                  \<Longrightarrow> read_scalar rt item_type g = (Inr v, g\<lparr>unread := rest\<rparr>)"
    using scalar_codec[OF assms(1)] by blast
  have "scalar_bytes rt item_type v = bs"
    by (simp add: scalar_bytes_def emitted_def w)
  then show ?thesis using r assms(2) by simp
qed

section \<open>Evaluating on concrete inputs\<close>

lemma le_bytes_1: "le_bytes 1 x = [of_nat (x mod 256)]"
  by simp

lemma le_bytes_4:
  "le_bytes 4 x = [of_nat (x mod 256), of_nat (x div 256 mod 256),
     of_nat (x div 256 div 256 mod 256), of_nat (x div 256 div 256 div 256 mod 256)]"
proof -
  have "le_bytes (Suc (Suc (Suc (Suc 0)))) x = [of_nat (x mod 256), of_nat (x div 256 mod 256),
     of_nat (x div 256 div 256 mod 256), of_nat (x div 256 div 256 div 256 mod 256)]"
    by simp
  moreover have "(4::nat) = Suc (Suc (Suc (Suc 0)))" by simp
  ultimately show ?thesis by metis
qed

lemma le_bytes_8:
  "le_bytes 8 x = le_bytes 4 x @ le_bytes 4 (x div 256 div 256 div 256 div 256)"
proof -
  have "le_bytes (Suc (Suc (Suc (Suc (Suc (Suc (Suc (Suc 0)))))))) x
      = le_bytes (Suc (Suc (Suc (Suc 0)))) x
        @ le_bytes (Suc (Suc (Suc (Suc 0)))) (x div 256 div 256 div 256 div 256)"
    by simp
  moreover have "(4::nat) = Suc (Suc (Suc (Suc 0)))" by simp
  moreover have "(8::nat) = Suc (Suc (Suc (Suc (Suc (Suc (Suc (Suc 0)))))))" by simp
  ultimately show ?thesis by metis
qed

lemmas eval_defs = write_scalar_def read_scalar_def write_string_def read_string_def
  write_bytes_def read_bytes_def write_number_def read_number_def
  NUMERIC_FMT_def STRING_TYPES_def BYTES_TYPES_def SCALAR_TYPES_def
  encode_string_def decode_string_def enc_or_default_def DEFAULT_ENC_def
  get_len_and_fmt_def fmt_to_len_type_def LONG_TYPE_def SHORT_TYPE_def PInt_def
  struct_pack_def struct_unpack_def calcsize_def fmt_lo_def fmt_hi_def fmt_signed_def native_def
  lp64_def example_encode_def example_decode_def to_bytes_def
  fresh_def opened_def out_value_def scalar_bytes_def emitted_def
  representable_def prefix_limit_def le_bytes_1 le_bytes_4 le_bytes_8
  bnd_def ret_def raise_def lift_def bio_in_def bio_out_def cont_def

section \<open>Scalar round trip\<close>

text \<open>
  C1. For every scalar tag and every value representable under it, \<open>write_scalar\<close>
  succeeds, returns the number of bytes it appended to the file, and \<open>read_scalar\<close>
  with the same type specification, on a file whose unread data starts with those bytes,
  returns the value and leaves exactly what followed them.
\<close>

theorem scalar_round_trip:
  assumes "representable rt item_type v"
  shows "write_scalar rt (Scalar v) item_type f
           = (Inr (length (scalar_bytes rt item_type v)),
              f\<lparr>written := written f @ scalar_bytes rt item_type v\<rparr>)
       \<and> read_scalar rt item_type (g\<lparr>unread := scalar_bytes rt item_type v @ rest\<rparr>)
           = (Inr v, g\<lparr>unread := rest\<rparr>)"
  using write_scalar_ok[OF assms, of f]
    read_scalar_ok[OF assms, of "g\<lparr>unread := scalar_bytes rt item_type v @ rest\<rparr>" rest]
  by simp

theorem scalar_round_trip_witness:
  "representable lp64 (''str'', None) (SStr [114, 228, 107, 8364])
   \<and> write_scalar lp64 (Scalar (SStr [114, 228, 107, 8364])) (''str'', None) fresh
       = (Inr 11, fresh\<lparr>written := [7, 0, 0, 0, 114, 195, 164, 107, 226, 130, 172]\<rparr>)
   \<and> read_scalar lp64 (''str'', None)
         (opened ([7, 0, 0, 0, 114, 195, 164, 107, 226, 130, 172] @ [9]))
       = (Inr (SStr [114, 228, 107, 8364]), opened [9])"
proof -
  have h: "representable lp64 (''str'', None) (SStr [114, 228, 107, 8364])"
    by (simp add: eval_defs)
  have b: "scalar_bytes lp64 (''str'', None) (SStr [114, 228, 107, 8364])
           = [7, 0, 0, 0, 114, 195, 164, 107, 226, 130, 172]"
    by (simp add: eval_defs)
  show ?thesis
    using h scalar_round_trip[OF h, where f = fresh and g = "opened []" and rest = "[9]"]
    by (simp add: b fresh_def opened_def)
qed

section \<open>The entry point \<open>write_bio\<close>: empty vectors and unknown tags\<close>

lemma split_on_nonempty: "split_on c s \<noteq> []"
  by (induction s) (auto split: list.splits)

lemma split_on_prefix:
  "c \<notin> set p \<Longrightarrow> split_on c (p @ c # s) = p # split_on c s"
  by (induction p) (auto split: list.splits simp: split_on_nonempty)

lemma parse_vec:
  "\<exists>t ts. parse_type_descr (''vec:'' @ T) = (''vec'', None) # t # ts"
proof -
  have "split_on CHR '':'' (''vec'' @ CHR '':'' # T) = ''vec'' # split_on CHR '':'' T"
    by (rule split_on_prefix) simp
  moreover obtain w ws where "split_on CHR '':'' T = w # ws"
    using split_on_nonempty[of "CHR '':''" T] by (cases "split_on CHR '':'' T") auto
  ultimately show ?thesis
    by (simp add: parse_type_descr_def parse_component_def)
qed

lemma count_zero: "count_bytes rt 0 = [0, 0, 0, 0]"
  by (simp add: count_bytes_def emitted_def write_number_def LONG_TYPE_def PInt_def
      struct_pack_def calcsize_def fmt_lo_def fmt_hi_def fmt_signed_def native_def le_bytes_4
      bnd_def ret_def lift_def bio_out_def)

lemma write_vector_None:
  "write_vector rt (Scalar SNone) element_type f
   = (Inr 4, f\<lparr>written := written f @ [0, 0, 0, 0]\<rparr>)"
  by (simp add: write_vector_def write_number_def LONG_TYPE_def PInt_def
      struct_pack_def calcsize_def fmt_lo_def fmt_hi_def fmt_signed_def native_def le_bytes_4
      bnd_def ret_def lift_def bio_out_def)

lemma write_vector_empty:
  "write_vector rt (PList []) element_type f
   = (Inr 4, f\<lparr>written := written f @ [0, 0, 0, 0]\<rparr>)"
  by (simp add: write_vector_def write_number_def LONG_TYPE_def PInt_def
      struct_pack_def calcsize_def fmt_lo_def fmt_hi_def fmt_signed_def native_def le_bytes_4
      bnd_def ret_def lift_def bio_out_def)

lemma write_bio_vec:
  "write_bio rt item (''vec:'' @ T) f
   = write_vector rt item (parse_type_descr (''vec:'' @ T) ! 1) f"
proof -
  obtain t ts where p: "parse_type_descr (''vec:'' @ T) = (''vec'', None) # t # ts"
    using parse_vec by blast
  show ?thesis
    unfolding write_bio_def Let_def p
    by (simp add: component_def SCALAR_TYPES_def NUMERIC_FMT_def STRING_TYPES_def BYTES_TYPES_def)
qed

text \<open>
  C9. Writing \<^verbatim>\<open>None\<close> under a descriptor \<^verbatim>\<open>vec:T\<close>, for any \<^verbatim>\<open>T\<close>, does exactly what
  writing the empty list does: it appends the four-byte count zero and nothing else, and
  returns the length of that count.
\<close>

theorem write_none_vector:
  "write_bio rt (Scalar SNone) (''vec:'' @ T) f = write_bio rt (PList []) (''vec:'' @ T) f
   \<and> write_bio rt (Scalar SNone) (''vec:'' @ T) f
       = (Inr (length (count_bytes rt 0)), f\<lparr>written := written f @ count_bytes rt 0\<rparr>)
   \<and> count_bytes rt 0 = [0, 0, 0, 0]"
  by (simp only: write_bio_vec write_vector_None write_vector_empty count_zero) simp

text \<open>
  C8. The descriptor \<^verbatim>\<open>q\<close> parses, to the single component with tag \<^verbatim>\<open>q\<close> and no
  encoding; \<open>write_bio\<close> then fails for every value, with the error for an unsupported
  type that names \<^verbatim>\<open>q\<close>, and leaves the file as it was.
\<close>

theorem write_unsupported_tag:
  "parse_type_descr ''q'' = [(''q'', None)]
   \<and> write_bio rt x ''q'' f = (Inl (UnsupportedType ''q''), f)"
  by (simp add: write_bio_def parse_type_descr_def parse_component_def component_def
      SCALAR_TYPES_def NUMERIC_FMT_def STRING_TYPES_def BYTES_TYPES_def raise_def Let_def)

section \<open>Widths of the long tags and of the length prefix\<close>

lemma sizes:
  "NUMBER_SIZES rt ''b'' = Some 1" "NUMBER_SIZES rt ''B'' = Some 1"
  "NUMBER_SIZES rt ''i'' = Some 4" "NUMBER_SIZES rt ''I'' = Some 4"
  "NUMBER_SIZES rt ''l'' = Some (if long64 rt then 8 else 4)"
  "NUMBER_SIZES rt ''L'' = Some (if long64 rt then 8 else 4)"
  by (simp_all add: NUMBER_SIZES_calcsize NUMERIC_FMT_def calcsize_def)

text \<open>
  C4, as stated, fails where the C \<^verbatim>\<open>long\<close> has 8 bytes: there \<^verbatim>\<open>l\<close> and \<^verbatim>\<open>L\<close> take
  8 bytes, and the length prefix, which is packed with \<^verbatim>\<open>I\<close>, takes 4.
\<close>

theorem long_width_counterexample:
  "length (scalar_bytes lp64 (''l'', None) (SInt 1)) = 8
   \<and> length (scalar_bytes lp64 (''L'', None) (SInt 1)) = 8
   \<and> length (count_bytes lp64 1) = 4
   \<and> NUMBER_SIZES lp64 ''l'' \<noteq> NUMBER_SIZES lp64 (fst LONG_TYPE)"
  by (simp add: sizes eval_defs count_bytes_def)

text \<open>
  C4, amended. The tags \<^verbatim>\<open>l\<close> and \<^verbatim>\<open>L\<close> have the width of the platform's \<^verbatim>\<open>long\<close>:
  8 bytes where it is a 64-bit type, 4 bytes otherwise. The wide length prefix of long
  strings, long byte strings and container counts is packed with \<^verbatim>\<open>I\<close> and has 4
  bytes on every platform.
\<close>

theorem long_width:
  "NUMBER_SIZES rt ''l'' = Some (if long64 rt then 8 else 4)
   \<and> NUMBER_SIZES rt ''L'' = Some (if long64 rt then 8 else 4)
   \<and> NUMBER_SIZES rt (fst LONG_TYPE) = Some 4
   \<and> fmt_to_len_type ''str'' = LONG_TYPE \<and> fmt_to_len_type ''byt'' = LONG_TYPE
   \<and> length (count_bytes rt (n mod 2 ^ 32)) = 4"
  by (simp add: sizes LONG_TYPE_def fmt_to_len_type_def count_bytes_def emitted_def
      write_number_def PInt_def struct_pack_def calcsize_def fmt_lo_def fmt_hi_def fmt_signed_def
      bnd_def ret_def lift_def bio_out_def)

section \<open>Short strings and short byte strings at the limit of the prefix\<close>

lemma write_number_error:
  assumes "write_number rt v nt f = (Inl e, f')"
  shows "e = StructError \<and> f' = f"
proof -
  obtain fmt enc where nt: "nt = (fmt, enc)" by (cases nt)
  show ?thesis
  proof (cases "struct_pack rt fmt v")
    case (Inl err)
    then have "err = StructError"
      by (auto simp: struct_pack_def split: option.splits pyval.splits scalar.splits if_splits)
    then show ?thesis using assms Inl by (simp add: nt write_number_def)
  next
    case (Inr bs)
    then show ?thesis using assms by (simp add: nt write_number_def bio_out_def bnd_def ret_def)
  qed
qed

lemma write_string_overflow:
  assumes "write_string rt x (typ, enc) f = (Inl LengthOverflow, f')"
  shows "f' = f"
proof (cases "encode_string rt x enc")
  case (Inl e)
  then show ?thesis using assms by (simp add: write_string_def)
next
  case (Inr bs)
  show ?thesis
  proof (cases "get_len_and_fmt (Scalar (SBytes bs)) typ")
    case (Inl e)
    then show ?thesis using assms Inr by (simp add: write_string_def)
  next
    case g: (Inr p)
    obtain len nt where p: "p = (len, nt)" by (cases p)
    show ?thesis
    proof (cases "write_number rt (PInt len) nt f")
      case (Pair r f1)
      show ?thesis
      proof (cases r)
        case (Inl e)
        then show ?thesis using assms Inr g p Pair write_number_error[of rt "PInt len" nt f e f1]
          by (simp add: write_string_def bnd_def ret_def)
      next
        case r: (Inr n)
        then show ?thesis using assms Inr g p Pair
          by (simp add: write_string_def bnd_def bio_out_def ret_def)
      qed
    qed
  qed
qed

lemma write_bytes_overflow:
  assumes "write_bytes rt x (typ, enc) f = (Inl LengthOverflow, f')"
  shows "f' = f"
proof (cases "get_len_and_fmt x typ")
  case (Inl e)
  then show ?thesis using assms by (simp add: write_bytes_def)
next
  case g: (Inr p)
  obtain len nt where p: "p = (len, nt)" by (cases p)
  show ?thesis
  proof (cases "write_number rt (PInt len) nt f")
    case (Pair r f1)
    show ?thesis
    proof (cases r)
      case (Inl e)
      then show ?thesis using assms g p Pair write_number_error[of rt "PInt len" nt f e f1]
        by (simp add: write_bytes_def bnd_def ret_def)
    next
      case r: (Inr n)
      then show ?thesis using assms g p Pair
        by (auto simp: write_bytes_def bnd_def bio_out_def ret_def raise_def out_value_def
            split: pyval.splits scalar.splits)
    qed
  qed
qed

lemma write_scalar_overflow:
  assumes "write_scalar rt x item_type f = (Inl LengthOverflow, f')"
  shows "f' = f"
proof -
  obtain t e where ty: "item_type = (t, e)" by (cases item_type)
  show ?thesis
    using assms write_number_error[of rt x "(t, e)" f LengthOverflow f']
      write_string_overflow[of rt x t e f f'] write_bytes_overflow[of rt x t e f f']
    by (auto simp: ty write_scalar_def raise_def split: if_splits)
qed

lemma short_payload:
  assumes "typ = ''sstr'' \<and> v = SStr s \<and> encode rt (enc_or_default enc) s = Inr bs
           \<or> typ = ''sbyt'' \<and> v = SBytes bs"
  shows "write_scalar rt (Scalar v) (typ, enc) f =
         bnd (lift (get_len_and_fmt (Scalar (SBytes bs)) typ)) (\<lambda>(len, number_type).
         bnd (write_number rt (PInt len) number_type) (\<lambda>n.
         bnd (bio_out bs) (\<lambda>k. ret (n + k)))) f"
  using assms
  by (auto simp: write_scalar_def write_string_def write_bytes_def encode_string_def
      out_value_def NUMERIC_FMT_def STRING_TYPES_def BYTES_TYPES_def)

lemma short_fits:
  assumes "typ = ''sstr'' \<or> typ = ''sbyt''" and "length bs \<le> 255"
  shows "bnd (lift (get_len_and_fmt (Scalar (SBytes bs)) typ)) (\<lambda>(len, number_type).
         bnd (write_number rt (PInt len) number_type) (\<lambda>n.
         bnd (bio_out bs) (\<lambda>k. ret (n + k)))) f
       = (Inr (1 + length bs), f\<lparr>written := written f @ of_nat (length bs) # bs\<rparr>)"
proof -
  have l: "length bs < prefix_limit typ" using assms by (auto simp: prefix_limit_def)
  have p: "struct_pack rt (fst (fmt_to_len_type typ)) (PInt (length bs)) = Inr [of_nat (length bs)]"
    using assms
    by (auto simp: fmt_to_len_type_def SHORT_TYPE_def PInt_def struct_pack_def calcsize_def
        fmt_lo_def fmt_hi_def fmt_signed_def native_def le_bytes_1)
  show ?thesis using framed_write[OF p l, of f] by simp
qed

lemma short_overflows:
  assumes "typ = ''sstr'' \<or> typ = ''sbyt''" and "255 < length bs"
  shows "bnd (lift (get_len_and_fmt (Scalar (SBytes bs)) typ)) k f = (Inl LengthOverflow, f)"
  using assms by (auto simp: get_len_and_fmt_def fmt_to_len_type_def SHORT_TYPE_def)

text \<open>
  C5. Under \<^verbatim>\<open>sstr\<close> the payload is the encoded string, under \<^verbatim>\<open>sbyt\<close> the byte
  string itself. A payload of at most 255 bytes is written, one length byte and then the
  payload; a payload of 256 bytes or more ends in the overflow error. The length compared
  is that of the payload, after encoding.
\<close>

theorem short_prefix_boundary:
  assumes "typ = ''sstr'' \<and> v = SStr s \<and> encode rt (enc_or_default enc) s = Inr bs
           \<or> typ = ''sbyt'' \<and> v = SBytes bs"
  shows "(length bs \<le> 255 \<longrightarrow>
            write_scalar rt (Scalar v) (typ, enc) f
            = (Inr (1 + length bs), f\<lparr>written := written f @ of_nat (length bs) # bs\<rparr>))
       \<and> (256 \<le> length bs \<longrightarrow>
            fst (write_scalar rt (Scalar v) (typ, enc) f) = Inl LengthOverflow)"
proof -
  have t: "typ = ''sstr'' \<or> typ = ''sbyt''" using assms by blast
  have "fst (write_scalar rt (Scalar v) (typ, enc) f) = Inl LengthOverflow" if "256 \<le> length bs"
  proof -
    have "255 < length bs" using that by simp
    then show ?thesis
      unfolding short_payload[OF assms] by (simp add: short_overflows[OF t])
  qed
  moreover have "write_scalar rt (Scalar v) (typ, enc) f
            = (Inr (1 + length bs), f\<lparr>written := written f @ of_nat (length bs) # bs\<rparr>)"
    if "length bs \<le> 255"
    unfolding short_payload[OF assms] using short_fits[OF t that] by simp
  ultimately show ?thesis by blast
qed

text \<open>
  C10. When the payload of an \<^verbatim>\<open>sstr\<close> or \<^verbatim>\<open>sbyt\<close> value has more than 255 bytes, the
  write ends in the overflow error and the file is what it was before the call. More
  generally, whatever value is written under such a tag, a call that ends in the overflow
  error has not changed the file.
\<close>

theorem short_overflow_atomic:
  assumes "typ = ''sstr'' \<and> v = SStr s \<and> encode rt (enc_or_default enc) s = Inr bs
           \<or> typ = ''sbyt'' \<and> v = SBytes bs"
    and "255 < length bs"
  shows "write_scalar rt (Scalar v) (typ, enc) f = (Inl LengthOverflow, f)
       \<and> (\<forall>x r f'. write_scalar rt x (typ, enc) f = (r, f') \<and> r = Inl LengthOverflow \<longrightarrow> f' = f)"
proof -
  have t: "typ = ''sstr'' \<or> typ = ''sbyt''" using assms by blast
  show ?thesis
    unfolding short_payload[OF assms(1)]
    using short_overflows[OF t assms(2), of _ f] write_scalar_overflow[of rt _ "(typ, enc)" f]
    by simp
qed


lemma utf8_enc_e_acute: "utf8_enc (replicate n 233) = Some (concat (replicate n [195, 169]))"
  by (induction n) simp_all

lemma length_pairs: "length (concat (replicate n [a, b])) = 2 * n"
  by (induction n) simp_all

theorem short_prefix_boundary_witness:
  "length (replicate 128 (233::nat)) = 128
   \<and> encode lp64 ''utf-8'' (replicate 128 233) = Inr (to_bytes (concat (replicate 128 [195, 169])))
   \<and> length (to_bytes (concat (replicate 128 [195, 169]))) = 256
   \<and> fst (write_scalar lp64 (Scalar (SStr (replicate 128 233))) (''sstr'', None) fresh)
       = Inl LengthOverflow
   \<and> write_scalar lp64 (Scalar (SBytes (replicate 255 7))) (''sbyt'', None) fresh
       = (Inr 256, fresh\<lparr>written := 255 # replicate 255 7\<rparr>)"
proof -
  let ?s = "replicate 128 (233::nat)"
  let ?bs = "to_bytes (concat (replicate 128 [195, 169]))"
  have e: "encode lp64 (enc_or_default None) ?s = Inr ?bs"
    by (simp add: lp64_def example_encode_def enc_or_default_def DEFAULT_ENC_def utf8_enc_e_acute)
  have l: "length ?bs = 256"
    by (simp add: to_bytes_def length_pairs)
  have h1: "''sstr'' = ''sstr'' \<and> SStr ?s = SStr ?s \<and> encode lp64 (enc_or_default None) ?s = Inr ?bs
            \<or> ''sstr'' = ''sbyt'' \<and> SStr ?s = SBytes ?bs"
    using e by simp
  have h2: "''sbyt'' = ''sstr'' \<and> SBytes (replicate 255 7) = SStr [] \<and>
              encode lp64 (enc_or_default None) [] = Inr (replicate 255 7)
            \<or> ''sbyt'' = ''sbyt'' \<and> SBytes (replicate 255 7) = SBytes (replicate 255 7)"
    by simp
  show ?thesis
    using short_prefix_boundary[OF h1, of fresh] short_prefix_boundary[OF h2, of fresh] e l
    by (simp add: enc_or_default_def DEFAULT_ENC_def fresh_def)
qed

theorem short_overflow_atomic_witness:
  "255 < length (replicate 256 (7::byte))
   \<and> write_scalar lp64 (Scalar (SBytes (replicate 256 7))) (''sbyt'', None)
        \<lparr>written = [5, 6], unread = []\<rparr>
       = (Inl LengthOverflow, \<lparr>written = [5, 6], unread = []\<rparr>)"
proof -
  have h: "''sbyt'' = ''sstr'' \<and> SBytes (replicate 256 7) = SStr [] \<and>
              encode lp64 (enc_or_default None) [] = Inr (replicate 256 7)
            \<or> ''sbyt'' = ''sbyt'' \<and> SBytes (replicate 256 7) = SBytes (replicate 256 7)"
    by simp
  have l: "255 < length (replicate 256 (7::byte))" by simp
  show ?thesis
    using short_overflow_atomic[OF h l, of "\<lparr>written = [5, 6], unread = []\<rparr>"] by simp
qed

section \<open>Counts and element loops\<close>

lemma count_pack:
  assumes "n < 2 ^ 32"
  shows "struct_pack rt ''I'' (PInt n) = Inr (count_bytes rt n) \<and> length (count_bytes rt n) = 4"
proof -
  have "n < prefix_limit ''str''" using assms by (simp add: prefix_limit_def)
  then obtain bs where bs: "struct_pack rt ''I'' (PInt n) = Inr bs"
    using pack_prefix[of n "''str''" rt] by (auto simp: fmt_to_len_type_def LONG_TYPE_def)
  have "count_bytes rt n = bs"
    by (simp add: count_bytes_def emitted_def LONG_TYPE_def write_number_ok[OF bs])
  moreover have "length bs = 4"
    using length_pack[OF bs] by (simp add: calcsize_def)
  ultimately show ?thesis using bs by simp
qed

lemma write_count:
  assumes "n < 2 ^ 32"
  shows "write_number rt (PInt n) LONG_TYPE f = (Inr 4, f\<lparr>written := written f @ count_bytes rt n\<rparr>)"
  using count_pack[OF assms, of rt] write_number_ok[of rt "''I''" "PInt n" "count_bytes rt n" None f]
  by (simp add: LONG_TYPE_def)

lemma read_count:
  assumes "n < 2 ^ 32" and "unread g = count_bytes rt n @ rest"
  shows "read_number rt LONG_TYPE g = (Inr (int n), g\<lparr>unread := rest\<rparr>)"
  using count_pack[OF assms(1), of rt]
    read_number_ok[of "''I''" rt "int n" "count_bytes rt n" g rest None] assms(2)
  by (simp add: LONG_TYPE_def PInt_def NUMERIC_FMT_def)

lemma write_elements_ok:
  assumes "list_all (representable rt item_type) xs"
  shows "write_elements rt item_type xs n f
         = (Inr (n + length (elements_bytes rt item_type xs)),
            f\<lparr>written := written f @ elements_bytes rt item_type xs\<rparr>)"
  using assms
proof (induction xs arbitrary: n f)
  case Nil
  then show ?case by (simp add: elements_bytes_def ret_def)
next
  case (Cons x xs)
  then have x: "representable rt item_type x" and xs: "list_all (representable rt item_type) xs"
    by simp_all
  show ?case
    by (simp add: bnd_def write_scalar_ok[OF x] Cons.IH[OF xs] elements_bytes_def)
qed

lemma read_vector_loop_ok:
  assumes "list_all (representable rt item_type) xs"
    and "unread g = elements_bytes rt item_type xs @ rest"
  shows "read_vector_loop rt item_type (length xs) acc g = (Inr (acc @ xs), g\<lparr>unread := rest\<rparr>)"
  using assms
proof (induction xs arbitrary: acc g)
  case Nil
  then show ?case by (simp add: elements_bytes_def ret_def)
next
  case (Cons x xs)
  then have x: "representable rt item_type x" and xs: "list_all (representable rt item_type) xs"
    by simp_all
  have u: "unread g = scalar_bytes rt item_type x @ (elements_bytes rt item_type xs @ rest)"
    using Cons.prems(2) by (simp add: elements_bytes_def)
  have r: "read_scalar rt item_type g
           = (Inr x, g\<lparr>unread := elements_bytes rt item_type xs @ rest\<rparr>)"
    by (rule read_scalar_ok[OF x u])
  show ?case
    using Cons.IH[OF xs, of "g\<lparr>unread := elements_bytes rt item_type xs @ rest\<rparr>" "acc @ [x]"]
    by (simp add: bnd_def r)
qed

lemma read_set_loop_ok:
  assumes "list_all (representable rt item_type) xs"
    and "unread g = elements_bytes rt item_type xs @ rest"
  shows "read_set_loop rt item_type (length xs) acc g
         = (Inr (foldl set_add acc xs), g\<lparr>unread := rest\<rparr>)"
  using assms
proof (induction xs arbitrary: acc g)
  case Nil
  then show ?case by (simp add: elements_bytes_def ret_def)
next
  case (Cons x xs)
  then have x: "representable rt item_type x" and xs: "list_all (representable rt item_type) xs"
    by simp_all
  have u: "unread g = scalar_bytes rt item_type x @ (elements_bytes rt item_type xs @ rest)"
    using Cons.prems(2) by (simp add: elements_bytes_def)
  have r: "read_scalar rt item_type g
           = (Inr x, g\<lparr>unread := elements_bytes rt item_type xs @ rest\<rparr>)"
    by (rule read_scalar_ok[OF x u])
  show ?case
    using Cons.IH[OF xs, of "g\<lparr>unread := elements_bytes rt item_type xs @ rest\<rparr>" "set_add acc x"]
    by (simp add: bnd_def r)
qed

lemma set_foldl_set_add: "set (foldl set_add acc xs) = set acc \<union> set xs"
  by (induction xs arbitrary: acc) (auto simp: set_add_def)

lemma distinct_foldl_set_add: "distinct acc \<Longrightarrow> distinct (foldl set_add acc xs)"
  by (induction xs arbitrary: acc) (auto simp: set_add_def)

lemma foldl_set_add_distinct:
  "distinct (acc @ xs) \<Longrightarrow> foldl set_add acc xs = acc @ xs"
  by (induction xs arbitrary: acc) (auto simp: set_add_def)

section \<open>Reading a set with repeated members\<close>

text \<open>
  C7. A byte stream that holds a count and then the encodings of that many members, some
  of them possibly repeated, is read by \<open>read_set\<close> without error: the result is the set
  of the members, each kept once, and the stream is left right after the last member.
\<close>

theorem read_set_duplicates:
  assumes "list_all (representable rt member_type) xs" and "length xs < 2 ^ 32"
  shows "read_set rt member_type
           (g\<lparr>unread := count_bytes rt (length xs) @ elements_bytes rt member_type xs @ rest\<rparr>)
         = (Inr (PSet (foldl set_add [] xs)), g\<lparr>unread := rest\<rparr>)
       \<and> set (foldl set_add [] xs) = set xs \<and> distinct (foldl set_add [] xs)"
proof -
  let ?g = "g\<lparr>unread := count_bytes rt (length xs) @ elements_bytes rt member_type xs @ rest\<rparr>"
  have c: "read_number rt LONG_TYPE ?g
           = (Inr (int (length xs)), g\<lparr>unread := elements_bytes rt member_type xs @ rest\<rparr>)"
    using read_count[OF assms(2), of ?g rt "elements_bytes rt member_type xs @ rest"] by simp
  have l: "read_set_loop rt member_type (length xs) []
             (g\<lparr>unread := elements_bytes rt member_type xs @ rest\<rparr>)
           = (Inr (foldl set_add [] xs), g\<lparr>unread := rest\<rparr>)"
    using read_set_loop_ok[OF assms(1), of "g\<lparr>unread := elements_bytes rt member_type xs @ rest\<rparr>" rest "[]"]
    by simp
  show ?thesis
    by (simp add: read_set_def bnd_def c l ret_def set_foldl_set_add distinct_foldl_set_add)
qed

lemma read_map_loop_numeral:
  "read_map_loop rt K V (numeral n) m =
     bnd (read_scalar rt K) (\<lambda>key.
     bnd (read_scalar rt V) (\<lambda>val.
       if key \<in> fst ` set m then raise (DuplicateKey key)
       else read_map_loop rt K V (pred_numeral n) (m @ [(key, val)])))"
  by (simp add: numeral_eq_Suc)

lemma read_vector_loop_numeral:
  "read_vector_loop rt T (numeral n) vector =
     bnd (read_scalar rt T) (\<lambda>x. read_vector_loop rt T (pred_numeral n) (vector @ [x]))"
  by (simp add: numeral_eq_Suc)

lemma read_set_loop_numeral:
  "read_set_loop rt T (numeral n) s =
     bnd (read_scalar rt T) (\<lambda>x. read_set_loop rt T (pred_numeral n) (set_add s x))"
  by (simp add: numeral_eq_Suc)

theorem read_set_duplicates_witness:
  "list_all (representable lp64 (''b'', None)) [SInt 1, SInt 2, SInt 1]
   \<and> length [SInt 1, SInt 2, SInt 1] < (2::nat) ^ 32
   \<and> read_set lp64 (''b'', None) (opened [3, 0, 0, 0, 1, 2, 1])
       = (Inr (PSet [SInt 1, SInt 2]), opened [])"
proof -
  have h: "list_all (representable lp64 (''b'', None)) [SInt 1, SInt 2, SInt 1]"
    by (simp add: eval_defs)
  have l: "length [SInt 1, SInt 2, SInt 1] < (2::nat) ^ 32" by simp
  have c: "count_bytes lp64 (length [SInt 1, SInt 2, SInt 1]) = [3, 0, 0, 0]"
    by (simp add: count_bytes_def eval_defs)
  have e: "elements_bytes lp64 (''b'', None) [SInt 1, SInt 2, SInt 1] = [1, 2, 1]"
    by (simp add: elements_bytes_def eval_defs)
  show ?thesis
    using h l read_set_duplicates[OF h l, where g = "opened []" and rest = "[]"]
    unfolding c e by (simp add: opened_def set_add_def)
qed

section \<open>Reading a map with a repeated key\<close>

lemma entry_split:
  "entries_bytes rt K V (kv # kvs) @ rest
   = scalar_bytes rt K (fst kv) @ scalar_bytes rt V (snd kv) @ entries_bytes rt K V kvs @ rest"
  by (simp add: entries_bytes_def entry_bytes_def)

lemma read_entry:
  assumes "representable_entry rt K V kv"
    and "unread g = entries_bytes rt K V (kv # kvs) @ rest"
  shows "bnd (read_scalar rt K) (\<lambda>key. bnd (read_scalar rt V) (\<lambda>val. k key val)) g
         = k (fst kv) (snd kv) (g\<lparr>unread := entries_bytes rt K V kvs @ rest\<rparr>)"
proof -
  have rk: "representable rt K (fst kv)" and rv: "representable rt V (snd kv)"
    using assms(1) by (simp_all add: representable_entry_def)
  have 1: "read_scalar rt K g
           = (Inr (fst kv), g\<lparr>unread := scalar_bytes rt V (snd kv) @ entries_bytes rt K V kvs @ rest\<rparr>)"
    using read_scalar_ok[OF rk] assms(2) by (simp add: entry_split)
  have 2: "read_scalar rt V (g\<lparr>unread := scalar_bytes rt V (snd kv) @ entries_bytes rt K V kvs @ rest\<rparr>)
           = (Inr (snd kv), g\<lparr>unread := entries_bytes rt K V kvs @ rest\<rparr>)"
    using read_scalar_ok[OF rv, of "g\<lparr>unread := scalar_bytes rt V (snd kv) @ entries_bytes rt K V kvs @ rest\<rparr>"
        "entries_bytes rt K V kvs @ rest"] by simp
  show ?thesis by (simp add: bnd_def 1 2)
qed

lemma read_map_loop_ok:
  assumes "list_all (representable_entry rt K V) kvs"
    and "distinct (map fst (acc @ kvs))"
    and "unread g = entries_bytes rt K V kvs @ rest"
  shows "read_map_loop rt K V (length kvs) acc g = (Inr (acc @ kvs), g\<lparr>unread := rest\<rparr>)"
  using assms
proof (induction kvs arbitrary: acc g)
  case Nil
  then show ?case by (simp add: entries_bytes_def ret_def)
next
  case (Cons kv kvs)
  then have e: "representable_entry rt K V kv" and es: "list_all (representable_entry rt K V) kvs"
    by simp_all
  have d: "distinct (map fst ((acc @ [kv]) @ kvs))" using Cons.prems(2) by simp
  have n: "fst kv \<notin> fst ` set acc" using Cons.prems(2) by auto
  have "read_map_loop rt K V (Suc (length kvs)) acc g
        = read_map_loop rt K V (length kvs) (acc @ [kv]) (g\<lparr>unread := entries_bytes rt K V kvs @ rest\<rparr>)"
    using n
    by (simp add: read_entry[OF e Cons.prems(3),
          where k = "\<lambda>key val. if key \<in> fst ` set acc then raise (DuplicateKey key)
                     else read_map_loop rt K V (length kvs) (acc @ [(key, val)])"])
  then show ?case
    using Cons.IH[OF es d, of "g\<lparr>unread := entries_bytes rt K V kvs @ rest\<rparr>"] by simp
qed

lemma read_map_loop_dup:
  assumes "list_all (representable_entry rt K V) (kv # post)"
    and "fst kv \<in> fst ` set acc"
    and "unread g = entries_bytes rt K V (kv # post) @ rest"
  shows "read_map_loop rt K V (Suc n) acc g
         = (Inl (DuplicateKey (fst kv)), g\<lparr>unread := entries_bytes rt K V post @ rest\<rparr>)"
proof -
  have e: "representable_entry rt K V kv" using assms(1) by simp
  show ?thesis
    using assms(2)
    by (simp add: raise_def read_entry[OF e assms(3),
          where k = "\<lambda>key val. if key \<in> fst ` set acc then raise (DuplicateKey key)
                     else read_map_loop rt K V n (acc @ [(key, val)])"])
qed

lemma entries_append:
  "entries_bytes rt K V (xs @ ys) = entries_bytes rt K V xs @ entries_bytes rt K V ys"
  by (simp add: entries_bytes_def)

lemma read_map_loop_first_dup:
  assumes "list_all (representable_entry rt K V) (pre @ kv # post)"
    and "distinct (map fst (acc @ pre))" and "fst kv \<in> fst ` set (acc @ pre)"
    and "unread g = entries_bytes rt K V (pre @ kv # post) @ rest"
  shows "read_map_loop rt K V (length (pre @ kv # post)) acc g
         = (Inl (DuplicateKey (fst kv)), g\<lparr>unread := entries_bytes rt K V post @ rest\<rparr>)"
  using assms
proof (induction pre arbitrary: acc g)
  case Nil
  then show ?case
    using read_map_loop_dup[of rt K V kv post acc g rest "length post"] by simp
next
  case (Cons p pre)
  then have e: "representable_entry rt K V p"
    and es: "list_all (representable_entry rt K V) (pre @ kv # post)"
    by simp_all
  have n: "fst p \<notin> fst ` set acc" using Cons.prems(2) by auto
  have u: "unread g = entries_bytes rt K V (p # (pre @ kv # post)) @ rest"
    using Cons.prems(4) by simp
  have d: "distinct (map fst ((acc @ [p]) @ pre))" using Cons.prems(2) by simp
  have m: "fst kv \<in> fst ` set ((acc @ [p]) @ pre)" using Cons.prems(3) by simp
  have step: "read_map_loop rt K V (Suc n) acc g
        = read_map_loop rt K V n (acc @ [p])
            (g\<lparr>unread := entries_bytes rt K V (pre @ kv # post) @ rest\<rparr>)" for n
    using n
    by (simp add: read_entry[OF e u,
          where k = "\<lambda>key val. if key \<in> fst ` set acc then raise (DuplicateKey key)
                     else read_map_loop rt K V n (acc @ [(key, val)])"])
  have len: "length ((p # pre) @ kv # post) = Suc (length (pre @ kv # post))" by simp
  have ih: "read_map_loop rt K V (length (pre @ kv # post)) (acc @ [p])
              (g\<lparr>unread := entries_bytes rt K V (pre @ kv # post) @ rest\<rparr>)
            = (Inl (DuplicateKey (fst kv)), g\<lparr>unread := entries_bytes rt K V post @ rest\<rparr>)"
    using Cons.IH[OF es d m, of "g\<lparr>unread := entries_bytes rt K V (pre @ kv # post) @ rest\<rparr>"]
    by simp
  show ?case
    by (simp only: len step ih)
qed

lemma first_repeated_key:
  "\<not> distinct (map fst kvs) \<Longrightarrow>
   \<exists>pre kv post. kvs = pre @ kv # post \<and> distinct (map fst pre) \<and> fst kv \<in> fst ` set pre"
proof (induction kvs rule: rev_induct)
  case Nil
  then show ?case by simp
next
  case (snoc x xs)
  show ?case
  proof (cases "distinct (map fst xs)")
    case True
    then have "fst x \<in> fst ` set xs" using snoc.prems by auto
    then have "xs @ [x] = xs @ x # [] \<and> distinct (map fst xs) \<and> fst x \<in> fst ` set xs"
      using True by simp
    then show ?thesis by blast
  next
    case False
    then obtain pre kv post where "xs = pre @ kv # post" "distinct (map fst pre)"
      "fst kv \<in> fst ` set pre"
      using snoc.IH by blast
    then have "xs @ [x] = pre @ kv # (post @ [x]) \<and> distinct (map fst pre) \<and> fst kv \<in> fst ` set pre"
      by simp
    then show ?thesis by blast
  qed
qed

text \<open>
  C6. A byte stream that holds a count and then the encodings of that many entries, among
  which some key occurs twice, makes \<open>read_map\<close> fail with the duplicate-key error. The
  key reported is the first one that repeats an earlier key; the error is raised once the
  key and the value of that entry have been read, so the stream is left right after that
  entry.
\<close>

theorem read_map_duplicate_key:
  assumes "list_all (representable_entry rt K V) kvs" and "length kvs < 2 ^ 32"
    and "\<not> distinct (map fst kvs)"
  shows "\<exists>pre k v post. kvs = pre @ (k, v) # post \<and> distinct (map fst pre) \<and> k \<in> fst ` set pre
           \<and> read_map rt K V
               (g\<lparr>unread := count_bytes rt (length kvs) @ entries_bytes rt K V kvs @ rest\<rparr>)
             = (Inl (DuplicateKey k), g\<lparr>unread := entries_bytes rt K V post @ rest\<rparr>)"
proof -
  obtain pre kv post where s: "kvs = pre @ kv # post" and d: "distinct (map fst pre)"
    and m: "fst kv \<in> fst ` set pre"
    using first_repeated_key[OF assms(3)] by blast
  let ?g = "g\<lparr>unread := count_bytes rt (length kvs) @ entries_bytes rt K V kvs @ rest\<rparr>"
  let ?g1 = "g\<lparr>unread := entries_bytes rt K V kvs @ rest\<rparr>"
  have c: "read_number rt LONG_TYPE ?g = (Inr (int (length kvs)), ?g1)"
    using read_count[OF assms(2), of ?g rt "entries_bytes rt K V kvs @ rest"] by simp
  have l: "read_map_loop rt K V (length kvs) [] ?g1
           = (Inl (DuplicateKey (fst kv)), g\<lparr>unread := entries_bytes rt K V post @ rest\<rparr>)"
    using read_map_loop_first_dup[of rt K V pre kv post "[]" ?g1 rest] assms(1) d m
    unfolding s by simp
  have "read_map rt K V ?g
        = (Inl (DuplicateKey (fst kv)), g\<lparr>unread := entries_bytes rt K V post @ rest\<rparr>)"
    by (simp add: read_map_def bnd_def c l)
  moreover have "kvs = pre @ (fst kv, snd kv) # post" using s by simp
  ultimately show ?thesis using d m by blast
qed

theorem read_map_duplicate_key_witness:
  "list_all (representable_entry lp64 (''b'', None) (''B'', None))
     [(SInt 1, SInt 10), (SInt 2, SInt 20), (SInt 1, SInt 30), (SInt 4, SInt 40)]
   \<and> \<not> distinct (map fst [(SInt 1, SInt 10), (SInt 2, SInt 20), (SInt 1, SInt 30), (SInt 4, SInt 40)])
   \<and> (\<exists>k f'. read_map lp64 (''b'', None) (''B'', None)
                (opened [4, 0, 0, 0, 1, 10, 2, 20, 1, 30, 4, 40]) = (Inl (DuplicateKey k), f'))
   \<and> read_map lp64 (''b'', None) (''B'', None) (opened [4, 0, 0, 0, 1, 10, 2, 20, 1, 30, 4, 40])
       = (Inl (DuplicateKey (SInt 1)), opened [4, 40])"
proof -
  let ?kvs = "[(SInt 1, SInt 10), (SInt 2, SInt 20), (SInt 1, SInt 30), (SInt 4, SInt 40)]"
  have h: "list_all (representable_entry lp64 (''b'', None) (''B'', None)) ?kvs"
    by (simp add: representable_entry_def eval_defs)
  have l: "length ?kvs < (2::nat) ^ 32" by simp
  have d: "\<not> distinct (map fst ?kvs)" by simp
  have c: "count_bytes lp64 (length ?kvs) = [4, 0, 0, 0]"
    by (simp add: count_bytes_def eval_defs)
  have e: "entries_bytes lp64 (''b'', None) (''B'', None) ?kvs = [1, 10, 2, 20, 1, 30, 4, 40]"
    by (simp add: entries_bytes_def entry_bytes_def eval_defs)
  have x: "\<exists>k f'. read_map lp64 (''b'', None) (''B'', None)
                (opened [4, 0, 0, 0, 1, 10, 2, 20, 1, 30, 4, 40]) = (Inl (DuplicateKey k), f')"
    using read_map_duplicate_key[OF h l d, where g = "opened []" and rest = "[]"]
    unfolding c e by (auto simp: opened_def)
  have v: "read_map lp64 (''b'', None) (''B'', None) (opened [4, 0, 0, 0, 1, 10, 2, 20, 1, 30, 4, 40])
       = (Inl (DuplicateKey (SInt 1)), opened [4, 40])"
    by (simp add: read_map_def eval_defs sizes read_map_loop_numeral)
  show ?thesis using h d x v by blast
qed

section \<open>Sorting and determinism\<close>

lemma bnd_ret_fun [simp]: "bnd (ret x) k = k x"
  by (rule ext) simp

lemma bnd_raise_fun [simp]: "bnd (raise e) k = raise e"
  by (rule ext) (simp add: raise_def)

lemma inj_unat_list: "map unat (a :: byte list) = map unat b \<Longrightarrow> a = b"
proof (induction a arbitrary: b)
  case Nil
  then show ?case by simp
next
  case (Cons x a)
  then obtain y b' where b: "b = y # b'" by (cases b) auto
  then have "unat x = unat y" and "map unat a = map unat b'" using Cons.prems by simp_all
  then show ?case using Cons.IH b by (simp add: word_unat_eq_iff)
qed

lemma order_key_inj:
  assumes "comparable xs"
  shows "inj_on order_key (set xs)"
proof -
  consider "length xs \<le> 1" | "list_all is_int xs" | "list_all is_str xs" | "list_all is_bytes xs"
    using assms by (auto simp: comparable_def)
  then show ?thesis
  proof cases
    case 1
    then have "xs = [] \<or> (\<exists>x. xs = [x])" by (cases xs) auto
    then show ?thesis by auto
  next
    case 2
    show ?thesis
    proof (rule inj_onI)
      fix a b assume A: "a \<in> set xs" "b \<in> set xs" "order_key a = order_key b"
      have "is_int a" "is_int b" using A 2 by (auto simp: list_all_iff)
      then show "a = b" using A(3) by - (cases a; cases b; auto)
    qed
  next
    case 3
    show ?thesis
    proof (rule inj_onI)
      fix a b assume A: "a \<in> set xs" "b \<in> set xs" "order_key a = order_key b"
      have "is_str a" "is_str b" using A 3 by (auto simp: list_all_iff)
      then show "a = b" using A(3) by - (cases a; cases b; auto)
    qed
  next
    case 4
    show ?thesis
    proof (rule inj_onI)
      fix a b assume A: "a \<in> set xs" "b \<in> set xs" "order_key a = order_key b"
      have "is_bytes a" "is_bytes b" using A 4 by (auto simp: list_all_iff)
      then show "a = b" using A(3) by - (cases a; cases b; auto dest: inj_unat_list)
    qed
  qed
qed

lemma sort_key_unique:
  assumes "distinct xs" and "distinct ys" and "set xs = set ys" and "inj_on f (set xs)"
  shows "sort_key f xs = sort_key f ys"
proof -
  have "map f (sort_key f xs) = map f (sort_key f ys)"
  proof (rule sorted_distinct_set_unique)
    show "sorted (map f (sort_key f xs))" by (rule sorted_sort_key)
    show "sorted (map f (sort_key f ys))" by (rule sorted_sort_key)
    show "distinct (map f (sort_key f xs))" using assms(1,4) by (simp add: distinct_map)
    show "distinct (map f (sort_key f ys))" using assms(2,3,4) by (simp add: distinct_map)
    show "set (map f (sort_key f xs)) = set (map f (sort_key f ys))" using assms(3) by simp
  qed
  moreover have "inj_on f (set (sort_key f xs) \<union> set (sort_key f ys))"
    using assms(3,4) by simp
  ultimately show ?thesis by (simp add: inj_on_map_eq_map)
qed

lemma comparable_same_set:
  assumes "distinct xs" and "distinct ys" and "set xs = set ys"
  shows "comparable xs = comparable ys"
proof -
  have "length xs = length ys" using assms by (metis distinct_card)
  then show ?thesis using assms(3) by (simp add: comparable_def list_all_iff)
qed

lemma py_sorted_same_set:
  assumes "distinct xs" and "distinct ys" and "set xs = set ys"
  shows "py_sorted xs = py_sorted ys"
proof (cases "comparable xs")
  case True
  then have "sort_key order_key xs = sort_key order_key ys"
    using sort_key_unique[OF assms order_key_inj] by simp
  then show ?thesis using True comparable_same_set[OF assms] by (simp add: py_sorted_def)
next
  case False
  then show ?thesis using comparable_same_set[OF assms] by (simp add: py_sorted_def)
qed

lemma py_sorted_items_same_set:
  assumes "distinct (map fst kvs)" and "distinct (map fst kvs')" and "set kvs = set kvs'"
  shows "py_sorted_items kvs = py_sorted_items kvs'"
proof -
  have ks: "set (map fst kvs) = set (map fst kvs')" using assms(3) by simp
  have c: "comparable (map fst kvs) = comparable (map fst kvs')"
    by (rule comparable_same_set[OF assms(1,2) ks])
  show ?thesis
  proof (cases "comparable (map fst kvs)")
    case True
    have d: "distinct kvs" "distinct kvs'" and f: "inj_on fst (set kvs)"
      using assms(1,2) by (simp_all add: distinct_map)
    have "inj_on order_key (fst ` set kvs)" using order_key_inj[OF True] by simp
    then have "inj_on (\<lambda>kv. order_key (fst kv)) (set kvs)"
      using f by (auto simp: inj_on_def)
    then have "sort_key (\<lambda>kv. order_key (fst kv)) kvs = sort_key (\<lambda>kv. order_key (fst kv)) kvs'"
      by (rule sort_key_unique[OF d assms(3)])
    then show ?thesis using True c by (simp add: py_sorted_items_def)
  next
    case False
    then show ?thesis using c by (simp add: py_sorted_items_def)
  qed
qed

lemma write_set_same_set:
  assumes "distinct xs" and "distinct ys" and "set xs = set ys"
  shows "write_set rt (PSet xs) member_type f = write_set rt (PSet ys) member_type f"
proof -
  have "length xs = length ys" using assms by (metis distinct_card)
  then show ?thesis
    by (simp add: write_set_def py_sorted_same_set[OF assms])
qed

lemma write_map_same_set:
  assumes "distinct (map fst kvs)" and "distinct (map fst kvs')" and "set kvs = set kvs'"
  shows "write_map rt (PDict kvs) key_type value_type f
         = write_map rt (PDict kvs') key_type value_type f"
proof -
  have "length (map fst kvs) = length (map fst kvs')"
    using assms by (metis distinct_card image_set)
  then show ?thesis
    by (simp add: write_map_def py_items_def py_sorted_items_same_set[OF assms])
qed

section \<open>Containers written and read back\<close>

lemma representable_kind:
  assumes "representable rt item_type v"
  shows "(fst item_type \<in> set NUMERIC_FMT \<and> is_int v)
       \<or> (fst item_type \<in> set STRING_TYPES \<and> is_str v)
       \<or> (fst item_type \<in> set BYTES_TYPES \<and> is_bytes v)"
proof -
  obtain t e where ty: "item_type = (t, e)" by (cases item_type)
  show ?thesis
    using assms unfolding ty representable_def
    by (cases v) (auto split: if_splits option.splits)
qed

lemma representable_comparable:
  assumes "list_all (representable rt item_type) xs"
  shows "comparable xs"
proof -
  have k: "\<forall>x \<in> set xs. (fst item_type \<in> set NUMERIC_FMT \<and> is_int x)
       \<or> (fst item_type \<in> set STRING_TYPES \<and> is_str x)
       \<or> (fst item_type \<in> set BYTES_TYPES \<and> is_bytes x)"
  proof
    fix x assume "x \<in> set xs"
    then have "representable rt item_type x" using assms by (simp add: list_all_iff)
    then show "(fst item_type \<in> set NUMERIC_FMT \<and> is_int x)
       \<or> (fst item_type \<in> set STRING_TYPES \<and> is_str x)
       \<or> (fst item_type \<in> set BYTES_TYPES \<and> is_bytes x)"
      by (rule representable_kind)
  qed
  consider "fst item_type \<in> set NUMERIC_FMT" | "fst item_type \<in> set STRING_TYPES"
    | "fst item_type \<in> set BYTES_TYPES" | "xs = []"
    using k by (cases xs) auto
  then show ?thesis
  proof cases
    case 1
    then have "list_all is_int xs"
      using k numeric_not_others(1)[OF 1] by (auto simp: list_all_iff)
    then show ?thesis by (simp add: comparable_def)
  next
    case 2
    then have "list_all is_str xs"
      using k numeric_not_others(2)[OF 2] by (auto simp: list_all_iff)
    then show ?thesis by (simp add: comparable_def)
  next
    case 3
    then have "list_all is_bytes xs"
      using k numeric_not_others(3)[OF 3] by (auto simp: list_all_iff)
    then show ?thesis by (simp add: comparable_def)
  next
    case 4
    then show ?thesis by (simp add: comparable_def)
  qed
qed

lemma write_vector_ok:
  assumes "list_all (representable rt item_type) xs" and "length xs < 2 ^ 32"
  shows "write_vector rt (PList xs) item_type f
         = (Inr (length (count_bytes rt (length xs) @ elements_bytes rt item_type xs)),
            f\<lparr>written := written f @ count_bytes rt (length xs) @ elements_bytes rt item_type xs\<rparr>)"
  using count_pack[OF assms(2), of rt]
  by (simp add: write_vector_def bnd_def write_count[OF assms(2)] write_elements_ok[OF assms(1)])

lemma read_vector_ok:
  assumes "list_all (representable rt item_type) xs" and "length xs < 2 ^ 32"
    and "unread g = (count_bytes rt (length xs) @ elements_bytes rt item_type xs) @ rest"
  shows "read_vector rt item_type g = (Inr (PList xs), g\<lparr>unread := rest\<rparr>)"
proof -
  let ?g1 = "g\<lparr>unread := elements_bytes rt item_type xs @ rest\<rparr>"
  have c: "read_number rt LONG_TYPE g = (Inr (int (length xs)), ?g1)"
    using read_count[OF assms(2), of g rt "elements_bytes rt item_type xs @ rest"] assms(3) by simp
  have l: "read_vector_loop rt item_type (length xs) [] ?g1 = (Inr xs, g\<lparr>unread := rest\<rparr>)"
    using read_vector_loop_ok[OF assms(1), of ?g1 rest "[]"] by simp
  show ?thesis by (simp add: read_vector_def bnd_def c l ret_def)
qed

lemma write_set_ok:
  assumes "list_all (representable rt item_type) xs" and "length xs < 2 ^ 32"
  shows "write_set rt (PSet xs) item_type f
         = (Inr (length (count_bytes rt (length xs)
                         @ elements_bytes rt item_type (sort_key order_key xs))),
            f\<lparr>written := written f @ count_bytes rt (length xs)
                          @ elements_bytes rt item_type (sort_key order_key xs)\<rparr>)"
proof -
  have s: "list_all (representable rt item_type) (sort_key order_key xs)"
    using assms(1) by (simp add: list_all_iff)
  show ?thesis
    using count_pack[OF assms(2), of rt]
    by (simp add: write_set_def bnd_def write_count[OF assms(2)] py_sorted_def
        representable_comparable[OF assms(1)] write_elements_ok[OF s])
qed

lemma read_set_stream:
  assumes "list_all (representable rt member_type) xs" and "length xs < 2 ^ 32"
    and "unread g = (count_bytes rt (length xs) @ elements_bytes rt member_type xs) @ rest"
  shows "read_set rt member_type g = (Inr (PSet (foldl set_add [] xs)), g\<lparr>unread := rest\<rparr>)"
proof -
  let ?g1 = "g\<lparr>unread := elements_bytes rt member_type xs @ rest\<rparr>"
  have c: "read_number rt LONG_TYPE g = (Inr (int (length xs)), ?g1)"
    using read_count[OF assms(2), of g rt "elements_bytes rt member_type xs @ rest"] assms(3) by simp
  have l: "read_set_loop rt member_type (length xs) [] ?g1
           = (Inr (foldl set_add [] xs), g\<lparr>unread := rest\<rparr>)"
    using read_set_loop_ok[OF assms(1), of ?g1 rest "[]"] by simp
  show ?thesis by (simp add: read_set_def bnd_def c l ret_def)
qed

lemma write_entries_ok:
  assumes "list_all (representable_entry rt K V) kvs"
  shows "write_entries rt K V kvs n f
         = (Inr (n + length (entries_bytes rt K V kvs)),
            f\<lparr>written := written f @ entries_bytes rt K V kvs\<rparr>)"
  using assms
proof (induction kvs arbitrary: n f)
  case Nil
  then show ?case by (simp add: entries_bytes_def ret_def)
next
  case (Cons kv kvs)
  obtain k v where kv: "kv = (k, v)" by (cases kv)
  have e: "representable_entry rt K V kv" and es: "list_all (representable_entry rt K V) kvs"
    using Cons.prems by simp_all
  have rk: "representable rt K k" and rv: "representable rt V v"
    using e by (simp_all add: kv representable_entry_def)
  show ?case
    by (simp add: kv bnd_def write_scalar_ok[OF rk] write_scalar_ok[OF rv] Cons.IH[OF es]
        entries_bytes_def entry_bytes_def)
qed

lemma write_map_ok:
  assumes "list_all (representable_entry rt K V) kvs" and "length kvs < 2 ^ 32"
  shows "write_map rt (PDict kvs) K V f
         = (Inr (length (count_bytes rt (length kvs)
                         @ entries_bytes rt K V (sort_key (\<lambda>kv. order_key (fst kv)) kvs))),
            f\<lparr>written := written f @ count_bytes rt (length kvs)
                          @ entries_bytes rt K V (sort_key (\<lambda>kv. order_key (fst kv)) kvs)\<rparr>)"
proof -
  have s: "list_all (representable_entry rt K V) (sort_key (\<lambda>kv. order_key (fst kv)) kvs)"
    using assms(1) by (simp add: list_all_iff)
  have "list_all (representable rt K) (map fst kvs)"
    using assms(1) by (simp add: list_all_iff representable_entry_def)
  then have c: "comparable (map fst kvs)" by (rule representable_comparable)
  show ?thesis
    using count_pack[OF assms(2), of rt]
    by (simp add: write_map_def bnd_def write_count[OF assms(2)] py_items_def py_sorted_items_def
        c write_entries_ok[OF s])
qed

lemma read_map_ok:
  assumes "list_all (representable_entry rt K V) kvs" and "length kvs < 2 ^ 32"
    and "distinct (map fst kvs)"
    and "unread g = (count_bytes rt (length kvs) @ entries_bytes rt K V kvs) @ rest"
  shows "read_map rt K V g = (Inr (PDict kvs), g\<lparr>unread := rest\<rparr>)"
proof -
  let ?g1 = "g\<lparr>unread := entries_bytes rt K V kvs @ rest\<rparr>"
  have c: "read_number rt LONG_TYPE g = (Inr (int (length kvs)), ?g1)"
    using read_count[OF assms(2), of g rt "entries_bytes rt K V kvs @ rest"] assms(4) by simp
  have l: "read_map_loop rt K V (length kvs) [] ?g1 = (Inr kvs, g\<lparr>unread := rest\<rparr>)"
    using read_map_loop_ok[OF assms(1), of "[]" ?g1 rest] assms(3) by simp
  show ?thesis by (simp add: read_map_def bnd_def c l ret_def)
qed

lemma emitted_eq:
  "m \<lparr>written = [], unread = []\<rparr> = (r, \<lparr>written = [] @ bs, unread = []\<rparr>) \<Longrightarrow> emitted m = bs"
  by (simp add: emitted_def)

lemma emitted_vector:
  assumes "list_all (representable rt item_type) xs" and "length xs < 2 ^ 32"
  shows "emitted (write_vector rt (PList xs) item_type)
         = count_bytes rt (length xs) @ elements_bytes rt item_type xs"
  by (simp add: emitted_def write_vector_ok[OF assms])

lemma emitted_set:
  assumes "list_all (representable rt item_type) xs" and "length xs < 2 ^ 32"
  shows "emitted (write_set rt (PSet xs) item_type)
         = count_bytes rt (length xs) @ elements_bytes rt item_type (sort_key order_key xs)"
  by (simp add: emitted_def write_set_ok[OF assms])

lemma emitted_map:
  assumes "list_all (representable_entry rt K V) kvs" and "length kvs < 2 ^ 32"
  shows "emitted (write_map rt (PDict kvs) K V)
         = count_bytes rt (length kvs)
           @ entries_bytes rt K V (sort_key (\<lambda>kv. order_key (fst kv)) kvs)"
  by (simp add: emitted_def write_map_ok[OF assms])

lemma vector_round_trip:
  assumes "list_all (representable rt item_type) xs" and "length xs < 2 ^ 32"
  shows "write_vector rt (PList xs) item_type f
           = (Inr (length (emitted (write_vector rt (PList xs) item_type))),
              f\<lparr>written := written f @ emitted (write_vector rt (PList xs) item_type)\<rparr>)
       \<and> read_vector rt item_type
             (g\<lparr>unread := emitted (write_vector rt (PList xs) item_type) @ rest\<rparr>)
           = (Inr (PList xs), g\<lparr>unread := rest\<rparr>)"
  unfolding emitted_vector[OF assms]
  using write_vector_ok[OF assms, of f]
    read_vector_ok[OF assms, of "g\<lparr>unread := (count_bytes rt (length xs)
        @ elements_bytes rt item_type xs) @ rest\<rparr>" rest]
  by simp

lemma set_round_trip:
  assumes "list_all (representable rt item_type) xs" and "length xs < 2 ^ 32"
  shows "write_set rt (PSet xs) item_type f
           = (Inr (length (emitted (write_set rt (PSet xs) item_type))),
              f\<lparr>written := written f @ emitted (write_set rt (PSet xs) item_type)\<rparr>)
       \<and> read_set rt item_type
             (g\<lparr>unread := emitted (write_set rt (PSet xs) item_type) @ rest\<rparr>)
           = (Inr (PSet (foldl set_add [] (sort_key order_key xs))), g\<lparr>unread := rest\<rparr>)
       \<and> py_eq (PSet (foldl set_add [] (sort_key order_key xs))) (PSet xs)"
proof -
  have s: "list_all (representable rt item_type) (sort_key order_key xs)"
    using assms(1) by (simp add: list_all_iff)
  have l: "length (sort_key order_key xs) < 2 ^ 32" using assms(2) by simp
  show ?thesis
    unfolding emitted_set[OF assms]
    using write_set_ok[OF assms, of f]
      read_set_stream[OF s l, of "g\<lparr>unread := (count_bytes rt (length xs)
        @ elements_bytes rt item_type (sort_key order_key xs)) @ rest\<rparr>" rest]
    by (simp add: set_foldl_set_add)
qed

lemma map_round_trip:
  assumes "list_all (representable_entry rt K V) kvs" and "length kvs < 2 ^ 32"
    and "distinct (map fst kvs)"
  shows "write_map rt (PDict kvs) K V f
           = (Inr (length (emitted (write_map rt (PDict kvs) K V))),
              f\<lparr>written := written f @ emitted (write_map rt (PDict kvs) K V)\<rparr>)
       \<and> read_map rt K V (g\<lparr>unread := emitted (write_map rt (PDict kvs) K V) @ rest\<rparr>)
           = (Inr (PDict (sort_key (\<lambda>kv. order_key (fst kv)) kvs)), g\<lparr>unread := rest\<rparr>)
       \<and> py_eq (PDict (sort_key (\<lambda>kv. order_key (fst kv)) kvs)) (PDict kvs)"
proof -
  let ?s = "sort_key (\<lambda>kv. order_key (fst kv)) kvs"
  have s: "list_all (representable_entry rt K V) ?s"
    using assms(1) by (simp add: list_all_iff)
  have l: "length ?s < 2 ^ 32" using assms(2) by simp
  have d: "distinct (map fst ?s)" using assms(3) by (simp add: distinct_map)
  have m: "map_of ?s = map_of kvs"
    using map_of_inject_set[OF d assms(3)] by simp
  show ?thesis
    unfolding emitted_map[OF assms(1,2)]
    using write_map_ok[OF assms(1,2), of f]
      read_map_ok[OF s l d, of "g\<lparr>unread := (count_bytes rt (length kvs)
        @ entries_bytes rt K V ?s) @ rest\<rparr>" rest]
    by (simp add: m)
qed

text \<open>
  C2. A list of values representable under the element type, shorter than \<open>2 ^ 32\<close>, is
  written by \<open>write_vector\<close> and read back by \<open>read_vector\<close> as the same list. The same
  members written by \<open>write_set\<close> are read back by \<open>read_set\<close> as a set with the same
  members. A dict with representable keys and values is written by \<open>write_map\<close> and read
  back by \<open>read_map\<close> as a dict with the same value for every key. In each case the write
  succeeds and returns the number of bytes it appended, and the read consumes exactly
  those bytes.
\<close>

theorem container_round_trip:
  "(list_all (representable rt item_type) xs \<and> length xs < 2 ^ 32 \<longrightarrow>
      write_vector rt (PList xs) item_type f
        = (Inr (length (emitted (write_vector rt (PList xs) item_type))),
           f\<lparr>written := written f @ emitted (write_vector rt (PList xs) item_type)\<rparr>)
      \<and> read_vector rt item_type
           (g\<lparr>unread := emitted (write_vector rt (PList xs) item_type) @ rest\<rparr>)
         = (Inr (PList xs), g\<lparr>unread := rest\<rparr>)
      \<and> write_set rt (PSet xs) item_type f
        = (Inr (length (emitted (write_set rt (PSet xs) item_type))),
           f\<lparr>written := written f @ emitted (write_set rt (PSet xs) item_type)\<rparr>)
      \<and> read_set rt item_type
           (g\<lparr>unread := emitted (write_set rt (PSet xs) item_type) @ rest\<rparr>)
         = (Inr (PSet (foldl set_add [] (sort_key order_key xs))), g\<lparr>unread := rest\<rparr>)
      \<and> py_eq (PSet (foldl set_add [] (sort_key order_key xs))) (PSet xs))
   \<and> (list_all (representable_entry rt K V) kvs \<and> length kvs < 2 ^ 32
        \<and> distinct (map fst kvs) \<longrightarrow>
      write_map rt (PDict kvs) K V f
        = (Inr (length (emitted (write_map rt (PDict kvs) K V))),
           f\<lparr>written := written f @ emitted (write_map rt (PDict kvs) K V)\<rparr>)
      \<and> read_map rt K V (g\<lparr>unread := emitted (write_map rt (PDict kvs) K V) @ rest\<rparr>)
         = (Inr (PDict (sort_key (\<lambda>kv. order_key (fst kv)) kvs)), g\<lparr>unread := rest\<rparr>)
      \<and> py_eq (PDict (sort_key (\<lambda>kv. order_key (fst kv)) kvs)) (PDict kvs))"
  using vector_round_trip[where rt = rt and item_type = item_type and xs = xs and f = f
      and g = g and rest = rest]
    set_round_trip[where rt = rt and item_type = item_type and xs = xs and f = f
      and g = g and rest = rest]
    map_round_trip[where rt = rt and K = K and V = V and kvs = kvs and f = f
      and g = g and rest = rest]
  by blast


theorem container_round_trip_witness:
  "list_all (representable lp64 (''b'', None)) [SInt 3, SInt (-19), SInt 2]
   \<and> list_all (representable_entry lp64 (''b'', None) (''B'', None))
        [(SInt 5, SInt 1), (SInt (-1), SInt 2)]
   \<and> distinct (map fst [(SInt 5, SInt 1), (SInt (-1), SInt 2)])
   \<and> write_vector lp64 (PList [SInt 3, SInt (-19), SInt 2]) (''b'', None) fresh
       = (Inr 7, fresh\<lparr>written := [3, 0, 0, 0, 3, 237, 2]\<rparr>)
   \<and> read_vector lp64 (''b'', None) (opened [3, 0, 0, 0, 3, 237, 2])
       = (Inr (PList [SInt 3, SInt (-19), SInt 2]), opened [])
   \<and> write_set lp64 (PSet [SInt 3, SInt (-19), SInt 2]) (''b'', None) fresh
       = (Inr 7, fresh\<lparr>written := [3, 0, 0, 0, 237, 2, 3]\<rparr>)
   \<and> read_set lp64 (''b'', None) (opened [3, 0, 0, 0, 237, 2, 3])
       = (Inr (PSet [SInt (-19), SInt 2, SInt 3]), opened [])
   \<and> py_eq (PSet [SInt (-19), SInt 2, SInt 3]) (PSet [SInt 3, SInt (-19), SInt 2])
   \<and> write_map lp64 (PDict [(SInt 5, SInt 1), (SInt (-1), SInt 2)]) (''b'', None) (''B'', None) fresh
       = (Inr 8, fresh\<lparr>written := [2, 0, 0, 0, 255, 2, 5, 1]\<rparr>)
   \<and> read_map lp64 (''b'', None) (''B'', None) (opened [2, 0, 0, 0, 255, 2, 5, 1])
       = (Inr (PDict [(SInt (-1), SInt 2), (SInt 5, SInt 1)]), opened [])
   \<and> py_eq (PDict [(SInt (-1), SInt 2), (SInt 5, SInt 1)]) (PDict [(SInt 5, SInt 1), (SInt (-1), SInt 2)])"
proof -
  let ?xs = "[SInt 3, SInt (-19), SInt 2]"
  let ?kvs = "[(SInt 5, SInt 1), (SInt (-1), SInt 2)]"
  have h1: "list_all (representable lp64 (''b'', None)) ?xs"
    by (simp add: eval_defs)
  have h2: "list_all (representable_entry lp64 (''b'', None) (''B'', None)) ?kvs"
    by (simp add: representable_entry_def eval_defs)
  have h3: "distinct (map fst ?kvs)" by simp
  have l1: "length ?xs < (2::nat) ^ 32" and l2: "length ?kvs < (2::nat) ^ 32" by simp_all
  have s1: "sort_key order_key ?xs = [SInt (-19), SInt 2, SInt 3]" by simp
  have s2: "sort_key (\<lambda>kv. order_key (fst kv)) ?kvs = [(SInt (-1), SInt 2), (SInt 5, SInt 1)]"
    by simp
  have e1: "emitted (write_vector lp64 (PList ?xs) (''b'', None)) = [3, 0, 0, 0, 3, 237, 2]"
    unfolding emitted_vector[OF h1 l1]
    by (simp add: count_bytes_def elements_bytes_def eval_defs)
  have e2: "emitted (write_set lp64 (PSet ?xs) (''b'', None)) = [3, 0, 0, 0, 237, 2, 3]"
    unfolding emitted_set[OF h1 l1] s1
    by (simp add: count_bytes_def elements_bytes_def eval_defs)
  have e3: "emitted (write_map lp64 (PDict ?kvs) (''b'', None) (''B'', None))
            = [2, 0, 0, 0, 255, 2, 5, 1]"
    unfolding emitted_map[OF h2 l2] s2
    by (simp add: count_bytes_def entries_bytes_def entry_bytes_def eval_defs)
  show ?thesis
    using h1 h2 h3 l1 l2
      container_round_trip[where rt = lp64 and item_type = "(''b'', None)" and xs = ?xs
        and K = "(''b'', None)" and V = "(''B'', None)" and kvs = ?kvs
        and f = fresh and g = "opened []" and rest = "[]"]
    unfolding e1 e2 e3 s1 s2
    by (simp add: fresh_def opened_def set_add_def)
qed

section \<open>What sets and maps leave in the file\<close>

lemma py_le_order_key:
  assumes "is_int a \<and> is_int b \<or> is_str a \<and> is_str b \<or> is_bytes a \<and> is_bytes b"
  shows "py_le a b = (order_key a \<le> order_key b)"
  using assms by - (cases a; cases b; auto)

lemma sorted_py_le:
  assumes "comparable xs"
  shows "sorted_wrt py_le (sort_key order_key xs)"
proof -
  let ?zs = "sort_key order_key xs"
  have s: "sorted_wrt (\<lambda>a b. order_key a \<le> order_key b) ?zs"
    using sorted_sort_key[of order_key xs] by (simp add: sorted_map)
  show ?thesis
  proof (cases "length xs \<le> 1")
    case True
    then have "length ?zs \<le> 1" by simp
    then have "?zs = [] \<or> (\<exists>z. ?zs = [z])" by (cases ?zs) auto
    then show ?thesis by auto
  next
    case False
    then have k: "list_all is_int xs \<or> list_all is_str xs \<or> list_all is_bytes xs"
      using assms by (simp add: comparable_def)
    have "py_le a b" if "a \<in> set ?zs" "b \<in> set ?zs" "order_key a \<le> order_key b" for a b
    proof -
      have "is_int a \<and> is_int b \<or> is_str a \<and> is_str b \<or> is_bytes a \<and> is_bytes b"
        using k that(1,2) by (auto simp: list_all_iff)
      then show ?thesis using that(3) by (simp add: py_le_order_key)
    qed
    then show ?thesis using s by (rule sorted_wrt_mono_rel)
  qed
qed

lemma sorted_items_py_le:
  assumes "comparable (map fst kvs)"
  shows "sorted_wrt (\<lambda>p q. py_le (fst p) (fst q)) (sort_key (\<lambda>kv. order_key (fst kv)) kvs)"
proof -
  let ?zs = "sort_key (\<lambda>kv. order_key (fst kv)) kvs"
  have s: "sorted_wrt (\<lambda>p q. order_key (fst p) \<le> order_key (fst q)) ?zs"
    using sorted_sort_key[of "\<lambda>kv. order_key (fst kv)" kvs] by (simp add: sorted_map)
  show ?thesis
  proof (cases "length kvs \<le> 1")
    case True
    then have "length ?zs \<le> 1" by simp
    then have "?zs = [] \<or> (\<exists>z. ?zs = [z])" by (cases ?zs) auto
    then show ?thesis by auto
  next
    case False
    then have k: "list_all is_int (map fst kvs) \<or> list_all is_str (map fst kvs)
                  \<or> list_all is_bytes (map fst kvs)"
      using assms by (simp add: comparable_def)
    have "py_le (fst p) (fst q)"
      if "p \<in> set ?zs" "q \<in> set ?zs" "order_key (fst p) \<le> order_key (fst q)" for p q
    proof -
      have "is_int (fst p) \<and> is_int (fst q) \<or> is_str (fst p) \<and> is_str (fst q)
            \<or> is_bytes (fst p) \<and> is_bytes (fst q)"
        using k that(1,2) by (auto simp: list_all_iff)
      then show ?thesis using that(3) by (simp add: py_le_order_key)
    qed
    then show ?thesis using s by (rule sorted_wrt_mono_rel)
  qed
qed

lemma set_written_ascending:
  assumes "list_all (representable rt member_type) xs" and "length xs < 2 ^ 32"
  shows "write_set rt (PSet xs) member_type f
           = (Inr (length (count_bytes rt (length xs)
                           @ elements_bytes rt member_type (sort_key order_key xs))),
              f\<lparr>written := written f @ count_bytes rt (length xs)
                            @ elements_bytes rt member_type (sort_key order_key xs)\<rparr>)
       \<and> emitted (write_set rt (PSet xs) member_type)
           = count_bytes rt (length xs) @ elements_bytes rt member_type (sort_key order_key xs)
       \<and> sorted_wrt py_le (sort_key order_key xs)
       \<and> set (sort_key order_key xs) = set xs
       \<and> length (sort_key order_key xs) = length xs"
  using write_set_ok[OF assms, of f] emitted_set[OF assms]
    sorted_py_le[OF representable_comparable[OF assms(1)]]
  by simp

lemma map_written_ascending:
  assumes "list_all (representable_entry rt K V) kvs" and "length kvs < 2 ^ 32"
  shows "write_map rt (PDict kvs) K V f
           = (Inr (length (count_bytes rt (length kvs)
                           @ entries_bytes rt K V (sort_key (\<lambda>kv. order_key (fst kv)) kvs))),
              f\<lparr>written := written f @ count_bytes rt (length kvs)
                            @ entries_bytes rt K V (sort_key (\<lambda>kv. order_key (fst kv)) kvs)\<rparr>)
       \<and> emitted (write_map rt (PDict kvs) K V)
           = count_bytes rt (length kvs)
             @ entries_bytes rt K V (sort_key (\<lambda>kv. order_key (fst kv)) kvs)
       \<and> sorted_wrt (\<lambda>p q. py_le (fst p) (fst q)) (sort_key (\<lambda>kv. order_key (fst kv)) kvs)
       \<and> set (sort_key (\<lambda>kv. order_key (fst kv)) kvs) = set kvs
       \<and> length (sort_key (\<lambda>kv. order_key (fst kv)) kvs) = length kvs"
proof -
  have "list_all (representable rt K) (map fst kvs)"
    using assms(1) by (simp add: list_all_iff representable_entry_def)
  then have c: "comparable (map fst kvs)" by (rule representable_comparable)
  show ?thesis
    using write_map_ok[OF assms, of f] emitted_map[OF assms] sorted_items_py_le[OF c]
    by simp
qed

text \<open>
  C3. Two in-memory sets with the same members, whatever the order in which they iterate,
  make \<open>write_set\<close> do the same, byte for byte and in its result; likewise two dicts with
  the same entries and \<open>write_map\<close>. The reason is the order of writing. Where sorting
  succeeds its result is ascending and has the same elements. And for members (entries)
  representable under the type, what \<open>write_set\<close> (\<open>write_map\<close>) appends to the file is
  the count followed by the encodings of the members in ascending order of value (of the
  entries in ascending order of key), each once.
\<close>

theorem set_map_deterministic:
  "(distinct xs \<and> distinct ys \<and> set xs = set ys \<longrightarrow>
      write_set rt (PSet xs) member_type f = write_set rt (PSet ys) member_type f)
   \<and> (distinct (map fst kvs) \<and> distinct (map fst kvs') \<and> set kvs = set kvs' \<longrightarrow>
      write_map rt (PDict kvs) key_type value_type f
      = write_map rt (PDict kvs') key_type value_type f)
   \<and> (py_sorted xs = Inr zs \<longrightarrow> sorted (map order_key zs) \<and> set zs = set xs)
   \<and> (py_sorted_items kvs = Inr zkvs \<longrightarrow>
        sorted (map (\<lambda>kv. order_key (fst kv)) zkvs) \<and> set zkvs = set kvs)
   \<and> (list_all (representable rt member_type) xs \<and> length xs < 2 ^ 32 \<longrightarrow>
        write_set rt (PSet xs) member_type f
          = (Inr (length (count_bytes rt (length xs)
                          @ elements_bytes rt member_type (sort_key order_key xs))),
             f\<lparr>written := written f @ count_bytes rt (length xs)
                           @ elements_bytes rt member_type (sort_key order_key xs)\<rparr>)
        \<and> emitted (write_set rt (PSet xs) member_type)
            = count_bytes rt (length xs) @ elements_bytes rt member_type (sort_key order_key xs)
        \<and> sorted_wrt py_le (sort_key order_key xs)
        \<and> set (sort_key order_key xs) = set xs
        \<and> length (sort_key order_key xs) = length xs)
   \<and> (list_all (representable_entry rt key_type value_type) kvs \<and> length kvs < 2 ^ 32 \<longrightarrow>
        write_map rt (PDict kvs) key_type value_type f
          = (Inr (length (count_bytes rt (length kvs)
                          @ entries_bytes rt key_type value_type
                              (sort_key (\<lambda>kv. order_key (fst kv)) kvs))),
             f\<lparr>written := written f @ count_bytes rt (length kvs)
                           @ entries_bytes rt key_type value_type
                               (sort_key (\<lambda>kv. order_key (fst kv)) kvs)\<rparr>)
        \<and> emitted (write_map rt (PDict kvs) key_type value_type)
            = count_bytes rt (length kvs)
              @ entries_bytes rt key_type value_type (sort_key (\<lambda>kv. order_key (fst kv)) kvs)
        \<and> sorted_wrt (\<lambda>p q. py_le (fst p) (fst q)) (sort_key (\<lambda>kv. order_key (fst kv)) kvs)
        \<and> set (sort_key (\<lambda>kv. order_key (fst kv)) kvs) = set kvs
        \<and> length (sort_key (\<lambda>kv. order_key (fst kv)) kvs) = length kvs)"
proof -
  have 1: "py_sorted xs = Inr zs \<longrightarrow> sorted (map order_key zs) \<and> set zs = set xs"
    by (auto simp: py_sorted_def split: if_splits)
  have 2: "py_sorted_items kvs = Inr zkvs \<longrightarrow>
        sorted (map (\<lambda>kv. order_key (fst kv)) zkvs) \<and> set zkvs = set kvs"
    by (auto simp: py_sorted_items_def split: if_splits)
  show ?thesis
    using write_set_same_set[of xs ys rt member_type f]
      write_map_same_set[of kvs kvs' rt key_type value_type f] 1 2
      set_written_ascending[where rt = rt and member_type = member_type and xs = xs and f = f]
      map_written_ascending[where rt = rt and K = key_type and V = value_type and kvs = kvs
        and f = f]
    by blast
qed

theorem set_map_deterministic_witness:
  "distinct [SInt 3, SInt 1, SInt 2] \<and> distinct [SInt 2, SInt 3, SInt 1]
   \<and> set [SInt 3, SInt 1, SInt 2] = set [SInt 2, SInt 3, SInt 1]
   \<and> list_all (representable lp64 (''b'', None)) [SInt 3, SInt 1, SInt 2]
   \<and> list_all (representable_entry lp64 (''b'', None) (''B'', None))
        [(SInt 5, SInt 1), (SInt (-1), SInt 2)]
   \<and> py_sorted [SInt 3, SInt 1, SInt 2] = Inr [SInt 1, SInt 2, SInt 3]
   \<and> sorted (map order_key [SInt 1, SInt 2, SInt 3])
   \<and> write_set lp64 (PSet [SInt 3, SInt 1, SInt 2]) (''b'', None) fresh
       = (Inr 7, fresh\<lparr>written := [3, 0, 0, 0, 1, 2, 3]\<rparr>)
   \<and> write_set lp64 (PSet [SInt 2, SInt 3, SInt 1]) (''b'', None) fresh
       = (Inr 7, fresh\<lparr>written := [3, 0, 0, 0, 1, 2, 3]\<rparr>)
   \<and> write_map lp64 (PDict [(SInt 5, SInt 1), (SInt (-1), SInt 2)]) (''b'', None) (''B'', None) fresh
       = (Inr 8, fresh\<lparr>written := [2, 0, 0, 0, 255, 2, 5, 1]\<rparr>)
   \<and> write_map lp64 (PDict [(SInt (-1), SInt 2), (SInt 5, SInt 1)]) (''b'', None) (''B'', None) fresh
       = (Inr 8, fresh\<lparr>written := [2, 0, 0, 0, 255, 2, 5, 1]\<rparr>)"
proof -
  let ?xs = "[SInt 3, SInt 1, SInt 2]" and ?ys = "[SInt 2, SInt 3, SInt 1]"
  let ?kvs = "[(SInt 5, SInt 1), (SInt (-1), SInt 2)]"
  let ?kvs' = "[(SInt (-1), SInt 2), (SInt 5, SInt 1)]"
  have d: "distinct ?xs \<and> distinct ?ys \<and> set ?xs = set ?ys" by auto
  have dk: "distinct (map fst ?kvs) \<and> distinct (map fst ?kvs') \<and> set ?kvs = set ?kvs'" by auto
  have h1: "list_all (representable lp64 (''b'', None)) ?xs"
    by (simp add: eval_defs)
  have h2: "list_all (representable_entry lp64 (''b'', None) (''B'', None)) ?kvs"
    by (simp add: representable_entry_def eval_defs)
  have l: "length ?xs < (2::nat) ^ 32" "length ?kvs < (2::nat) ^ 32" by simp_all
  have p: "py_sorted ?xs = Inr [SInt 1, SInt 2, SInt 3]"
    by (simp add: py_sorted_def comparable_def)
  have s1: "sort_key order_key ?xs = [SInt 1, SInt 2, SInt 3]" by simp
  have s2: "sort_key (\<lambda>kv. order_key (fst kv)) ?kvs = ?kvs'" by simp
  have c1: "count_bytes lp64 (length ?xs) = [3, 0, 0, 0]"
    and c2: "count_bytes lp64 (length ?kvs) = [2, 0, 0, 0]"
    by (simp_all add: count_bytes_def eval_defs)
  have e1: "elements_bytes lp64 (''b'', None) [SInt 1, SInt 2, SInt 3] = [1, 2, 3]"
    by (simp add: elements_bytes_def eval_defs)
  have e2: "entries_bytes lp64 (''b'', None) (''B'', None) ?kvs' = [255, 2, 5, 1]"
    by (simp add: entries_bytes_def entry_bytes_def eval_defs)
  note T = set_map_deterministic[where xs = ?xs and ys = ?ys and kvs = ?kvs and kvs' = ?kvs'
        and rt = lp64 and member_type = "(''b'', None)" and key_type = "(''b'', None)"
        and value_type = "(''B'', None)" and f = fresh and zs = "[SInt 1, SInt 2, SInt 3]"
        and zkvs = "[]"]
  have q1: "write_set lp64 (PSet ?ys) (''b'', None) fresh
            = write_set lp64 (PSet ?xs) (''b'', None) fresh"
    using T d by simp
  have q2: "write_map lp64 (PDict ?kvs') (''b'', None) (''B'', None) fresh
            = write_map lp64 (PDict ?kvs) (''b'', None) (''B'', None) fresh"
    using T dk by simp
  have w1: "write_set lp64 (PSet ?xs) (''b'', None) fresh
            = (Inr 7, fresh\<lparr>written := [3, 0, 0, 0, 1, 2, 3]\<rparr>)"
    using T h1 l(1) unfolding s1 c1 e1 by (simp add: fresh_def)
  have w2: "write_map lp64 (PDict ?kvs) (''b'', None) (''B'', None) fresh
            = (Inr 8, fresh\<lparr>written := [2, 0, 0, 0, 255, 2, 5, 1]\<rparr>)"
    using T h2 l(2) unfolding s2 c2 e2 by (simp add: fresh_def)
  have o: "sorted (map order_key [SInt 1, SInt 2, SInt 3])"
    using T p by simp
  show ?thesis
    unfolding q1 q2 using d h1 h2 p o w1 w2 by simp
qed

section \<open>From descriptors to the codec functions\<close>

text \<open>
  The theorems above are about the functions that \<open>read\<close> and \<open>write_bio\<close> dispatch to.
  For a descriptor written from type specifications the two entry points are exactly
  those functions.
\<close>

lemma split_on_plain: "c \<notin> set s \<Longrightarrow> split_on c s = [s]"
  by (induction s) auto

lemma takeWhile_upto: "c \<notin> set t \<Longrightarrow> takeWhile (\<lambda>x. x \<noteq> c) (t @ c # r) = t"
  by (induction t) auto

lemma dropWhile_upto: "c \<notin> set t \<Longrightarrow> dropWhile (\<lambda>x. x \<noteq> c) (t @ c # r) = c # r"
  by (induction t) auto

lemma parse_component_tag: "CHR ''/'' \<notin> set tag \<Longrightarrow> parse_component tag = (tag, None)"
  by (simp add: parse_component_def)

lemma parse_component_descriptor:
  assumes "expressible item_type"
  shows "parse_component (descriptor item_type) = item_type"
proof -
  obtain t e where ty: "item_type = (t, e)" by (cases item_type)
  have n: "CHR ''/'' \<notin> set t" using assms by (simp add: ty expressible_def)
  show ?thesis
  proof (cases e)
    case None
    then show ?thesis using n by (simp add: ty descriptor_def parse_component_def)
  next
    case (Some enc)
    have "takeWhile (\<lambda>c. c \<noteq> CHR ''/'') (t @ CHR ''/'' # enc) = t"
      using n by (rule takeWhile_upto)
    moreover have "dropWhile (\<lambda>c. c \<noteq> CHR ''/'') (t @ CHR ''/'' # enc) = CHR ''/'' # enc"
      using n by (rule dropWhile_upto)
    ultimately show ?thesis
      using Some by (simp add: ty descriptor_def parse_component_def)
  qed
qed

lemma no_colon_descriptor:
  "expressible item_type \<Longrightarrow> CHR '':'' \<notin> set (descriptor item_type)"
  by (cases item_type) (auto simp: expressible_def descriptor_def split: option.splits)

lemma parse_scalar_descr:
  "expressible item_type \<Longrightarrow> parse_type_descr (descriptor item_type) = [item_type]"
  by (simp add: parse_type_descr_def split_on_plain no_colon_descriptor parse_component_descriptor)

lemma parse_container_descr:
  assumes "expressible item_type" and "CHR '':'' \<notin> set tag" and "CHR ''/'' \<notin> set tag"
  shows "parse_type_descr (tag @ CHR '':'' # descriptor item_type) = [(tag, None), item_type]"
  using assms
  by (simp add: parse_type_descr_def split_on_prefix split_on_plain no_colon_descriptor
      parse_component_descriptor parse_component_tag)

lemma parse_map_descr:
  assumes "expressible key_type" and "expressible value_type"
  shows "parse_type_descr (''map:'' @ descriptor key_type @ CHR '':'' # descriptor value_type)
         = [(''map'', None), key_type, value_type]"
proof -
  have "split_on CHR '':'' (''map'' @ CHR '':'' # descriptor key_type @ CHR '':'' # descriptor value_type)
        = ''map'' # split_on CHR '':'' (descriptor key_type @ CHR '':'' # descriptor value_type)"
    by (rule split_on_prefix) simp
  moreover have "split_on CHR '':'' (descriptor key_type @ CHR '':'' # descriptor value_type)
        = descriptor key_type # split_on CHR '':'' (descriptor value_type)"
    by (rule split_on_prefix) (rule no_colon_descriptor[OF assms(1)])
  ultimately show ?thesis
    using assms
    by (simp add: parse_type_descr_def split_on_plain no_colon_descriptor
        parse_component_descriptor parse_component_tag)
qed

lemmas tag_defs = SCALAR_TYPES_def NUMERIC_FMT_def STRING_TYPES_def BYTES_TYPES_def

lemma dispatch_scalar:
  assumes "expressible item_type" and "fst item_type \<in> set SCALAR_TYPES"
  shows "write_bio rt v (descriptor item_type) f = write_scalar rt v item_type f"
    and "read rt (descriptor item_type) g = bnd (read_scalar rt item_type) (\<lambda>x. ret (Scalar x)) g"
proof -
  obtain t e where ty: "item_type = (t, e)" by (cases item_type)
  show "write_bio rt v (descriptor item_type) f = write_scalar rt v item_type f"
    using assms(2) unfolding write_bio_def parse_scalar_descr[OF assms(1)] Let_def
    by (simp add: ty component_def)
  show "read rt (descriptor item_type) g = bnd (read_scalar rt item_type) (\<lambda>x. ret (Scalar x)) g"
    using assms(2) unfolding read_def parse_scalar_descr[OF assms(1)] Let_def
    by (simp add: ty component_def)
qed

lemma dispatch_vec:
  assumes "expressible item_type"
  shows "write_bio rt v (''vec:'' @ descriptor item_type) f = write_vector rt v item_type f"
    and "read rt (''vec:'' @ descriptor item_type) g = read_vector rt item_type g"
proof -
  have p: "parse_type_descr (''vec:'' @ descriptor item_type) = [(''vec'', None), item_type]"
    using parse_container_descr[OF assms, of "''vec''"] by simp
  show "write_bio rt v (''vec:'' @ descriptor item_type) f = write_vector rt v item_type f"
    unfolding write_bio_def p Let_def by (simp add: component_def tag_defs)
  show "read rt (''vec:'' @ descriptor item_type) g = read_vector rt item_type g"
    unfolding read_def p Let_def by (simp add: component_def tag_defs)
qed

lemma dispatch_set:
  assumes "expressible item_type"
  shows "write_bio rt v (''set:'' @ descriptor item_type) f = write_set rt v item_type f"
    and "read rt (''set:'' @ descriptor item_type) g = read_set rt item_type g"
proof -
  have p: "parse_type_descr (''set:'' @ descriptor item_type) = [(''set'', None), item_type]"
    using parse_container_descr[OF assms, of "''set''"] by simp
  show "write_bio rt v (''set:'' @ descriptor item_type) f = write_set rt v item_type f"
    unfolding write_bio_def p Let_def by (simp add: component_def tag_defs)
  show "read rt (''set:'' @ descriptor item_type) g = read_set rt item_type g"
    unfolding read_def p Let_def by (simp add: component_def tag_defs)
qed

lemma dispatch_map:
  assumes "expressible key_type" and "expressible value_type"
  shows "write_bio rt v (''map:'' @ descriptor key_type @ CHR '':'' # descriptor value_type) f
         = write_map rt v key_type value_type f"
    and "read rt (''map:'' @ descriptor key_type @ CHR '':'' # descriptor value_type) g
         = read_map rt key_type value_type g"
proof -
  note p = parse_map_descr[OF assms]
  show "write_bio rt v (''map:'' @ descriptor key_type @ CHR '':'' # descriptor value_type) f
         = write_map rt v key_type value_type f"
    unfolding write_bio_def p Let_def by (simp add: component_def tag_defs)
  show "read rt (''map:'' @ descriptor key_type @ CHR '':'' # descriptor value_type) g
         = read_map rt key_type value_type g"
    unfolding read_def p Let_def by (simp add: component_def tag_defs)
qed

lemma example_dispatch:
  "write_bio lp64 (PDict [(SInt 5, SInt 1), (SInt (-1), SInt 2)]) ''map:b:B'' fresh
   = (Inr 8, fresh\<lparr>written := [2, 0, 0, 0, 255, 2, 5, 1]\<rparr>)"
  "read lp64 ''map:b:B'' (opened [2, 0, 0, 0, 255, 2, 5, 1])
   = (Inr (PDict [(SInt (-1), SInt 2), (SInt 5, SInt 1)]), opened [])"
  "write_bio lp64 (Scalar (SStr [114, 228, 107])) ''sstr/latin-1'' fresh
   = (Inr 4, fresh\<lparr>written := [3, 114, 228, 107]\<rparr>)"
  "read lp64 ''sstr/latin-1'' (opened [3, 114, 228, 107])
   = (Inr (Scalar (SStr [114, 228, 107])), opened [])"
  by (simp_all add: write_bio_def read_def parse_type_descr_def parse_component_def component_def
      Let_def write_map_def read_map_def py_items_def py_sorted_items_def comparable_def
      eval_defs sizes read_map_loop_numeral)

end
